theory Spec2Isabelle
  imports Complex_Main "HOL-Library.Word" "HOL-Library.AList" "HOL-Library.Multiset"
begin

text \<open>
  A shallow embedding of the synchronisation core of WitcherSeamless: the story lock and
  the fact registry of the narrative component, the handshake gate of the packet
  listeners, the reconciliation functions of the script layer, and the snapshot
  interpolator, over a model of the binary32 arithmetic they compute with. The first part
  gives the model, component by component, each definition next to the source function
  it follows; the second part states and proves the properties.
\<close>

section \<open>Machine types shared by the C++ components\<close>

type_synonym u32 = "32 word"
type_synonym u64 = "64 word"
type_synonym i32 = "32 word"  \<comment> \<open>\<^verbatim>\<open>int32_t\<close>: the bits, read as signed by \<open>sint\<close>\<close>

section \<open>IEEE binary32 arithmetic\<close>

text \<open>
  \<^verbatim>\<open>float\<close> in the C++ sources and in WitcherScript is IEEE 754 binary32. A value is a
  real number with a 24-bit significand and an exponent between \<open>-149\<close> and \<open>104\<close>, an
  infinity, or a NaN; every arithmetic operation rounds the exact result to the nearest
  such number, ties to the even significand, and overflows to an infinity. The sign of a
  zero and the payload of a NaN are not kept: no operation modelled here depends on them
  (no division in the sources has a zero divisor).
\<close>

datatype f32 = Finite real | PInf | NInf | NaN

definition pow2 :: "int \<Rightarrow> real" where
  "pow2 k = (if 0 \<le> k then 2 ^ nat k else 1 / 2 ^ nat (- k))"

definition round_even :: "real \<Rightarrow> int" where
  \<comment> \<open>the nearest integer, a tie going to the even one\<close>
  "round_even r =
     (let f = \<lfloor>r\<rfloor>; h = r - of_int f
      in if h < 1 / 2 then f else if 1 / 2 < h then f + 1 else if even f then f else f + 1)"

function binade_up :: "real \<Rightarrow> int" where
  "binade_up x = (if 2 \<le> x then binade_up (x / 2) + 1 else 0)"
  by pat_completeness auto
termination
proof (relation "measure (\<lambda>x. nat \<lceil>x\<rceil>)")
  show "wf (measure (\<lambda>x::real. nat \<lceil>x\<rceil>))" by simp
next
  fix x :: real
  assume big: "2 \<le> x"
  have "x / 2 \<le> x - 1" using big by simp
  then have "\<lceil>x / 2\<rceil> \<le> \<lceil>x - 1\<rceil>" by (rule ceiling_mono)
  then have step: "\<lceil>x / 2\<rceil> \<le> \<lceil>x\<rceil> - 1" by simp
  have "0 < \<lceil>x\<rceil>" using big by simp
  with step have "nat \<lceil>x / 2\<rceil> < nat \<lceil>x\<rceil>" by linarith
  then show "(x / 2, x) \<in> measure (\<lambda>x. nat \<lceil>x\<rceil>)" by (simp only: in_measure)
qed

function binade_down :: "real \<Rightarrow> int" where
  "binade_down x = (if 0 < x \<and> x < 1 then binade_down (x * 2) - 1 else 0)"
  by pat_completeness auto
termination
proof (relation "measure (\<lambda>x. nat \<lceil>1 / x\<rceil>)")
  show "wf (measure (\<lambda>x::real. nat \<lceil>1 / x\<rceil>))" by simp
next
  fix x :: real
  assume small: "0 < x \<and> x < 1"
  then have one: "1 < 1 / x" by simp
  then have two: "2 \<le> \<lceil>1 / x\<rceil>" by linarith
  have "1 / x \<le> of_int \<lceil>1 / x\<rceil>" by (rule le_of_int_ceiling)
  then have "1 / (x * 2) \<le> of_int \<lceil>1 / x\<rceil> / 2" by simp
  also have "\<dots> \<le> of_int (\<lceil>1 / x\<rceil> - 1)" using two by simp
  finally have "\<lceil>1 / (x * 2)\<rceil> \<le> \<lceil>1 / x\<rceil> - 1" by (simp only: ceiling_le_iff)
  with two have "nat \<lceil>1 / (x * 2)\<rceil> < nat \<lceil>1 / x\<rceil>" by linarith
  then show "(x * 2, x) \<in> measure (\<lambda>x. nat \<lceil>1 / x\<rceil>)" by (simp only: in_measure)
qed

declare binade_up.simps [simp del] binade_down.simps [simp del]

definition binade :: "real \<Rightarrow> int" where
  \<comment> \<open>the exponent \<open>e\<close> of a positive magnitude: \<open>2 ^ e \<le> x < 2 ^ (e + 1)\<close>\<close>
  "binade x = (if 1 \<le> x then binade_up x else binade_down x)"

definition nearest :: "real \<Rightarrow> real" where
  \<comment> \<open>a magnitude rounded to 24 significant bits; below \<open>2 ^ -126\<close> the spacing stays \<open>2 ^ -149\<close>\<close>
  "nearest x = (let q = pow2 (max (binade x) (- 126) - 23) in q * of_int (round_even (x / q)))"

definition round32 :: "real \<Rightarrow> f32" where
  "round32 x =
     (let m = nearest \<bar>x\<bar>
      in if 2 ^ 128 \<le> m then (if x < 0 then NInf else PInf)
         else Finite (if x < 0 then - m else m))"

definition is_float :: "real \<Rightarrow> bool" where
  \<comment> \<open>the real number is a binary32 value\<close>
  "is_float x = (round32 x = Finite x)"

definition f_neg :: "f32 \<Rightarrow> f32" where
  "f_neg a = (case a of Finite x \<Rightarrow> Finite (- x) | PInf \<Rightarrow> NInf | NInf \<Rightarrow> PInf | NaN \<Rightarrow> NaN)"

definition f_abs :: "f32 \<Rightarrow> f32" where
  "f_abs a = (case a of Finite x \<Rightarrow> Finite \<bar>x\<bar> | PInf \<Rightarrow> PInf | NInf \<Rightarrow> PInf | NaN \<Rightarrow> NaN)"

definition f_sign :: "f32 \<Rightarrow> int" where
  "f_sign a = (case a of Finite x \<Rightarrow> sgn \<lfloor>sgn x\<rfloor> | PInf \<Rightarrow> 1 | NInf \<Rightarrow> - 1 | NaN \<Rightarrow> 0)"

definition f_add :: "f32 \<Rightarrow> f32 \<Rightarrow> f32" where
  "f_add a b =
     (case (a, b) of
        (Finite x, Finite y) \<Rightarrow> round32 (x + y)
      | (NaN, _) \<Rightarrow> NaN
      | (_, NaN) \<Rightarrow> NaN
      | (PInf, NInf) \<Rightarrow> NaN
      | (NInf, PInf) \<Rightarrow> NaN
      | (PInf, _) \<Rightarrow> PInf
      | (_, PInf) \<Rightarrow> PInf
      | (NInf, _) \<Rightarrow> NInf
      | (_, NInf) \<Rightarrow> NInf)"

definition f_sub :: "f32 \<Rightarrow> f32 \<Rightarrow> f32" where
  "f_sub a b = f_add a (f_neg b)"

definition f_mul :: "f32 \<Rightarrow> f32 \<Rightarrow> f32" where
  "f_mul a b =
     (case (a, b) of
        (Finite x, Finite y) \<Rightarrow> round32 (x * y)
      | (NaN, _) \<Rightarrow> NaN
      | (_, NaN) \<Rightarrow> NaN
      | _ \<Rightarrow> (let s = f_sign a * f_sign b
              in if s = 0 then NaN else if 0 < s then PInf else NInf))"

definition f_div :: "f32 \<Rightarrow> f32 \<Rightarrow> f32" where
  "f_div a b =
     (case (a, b) of
        (NaN, _) \<Rightarrow> NaN
      | (_, NaN) \<Rightarrow> NaN
      | (Finite x, Finite y) \<Rightarrow>
          if y = 0 then (if x = 0 then NaN else if 0 < x then PInf else NInf)
          else round32 (x / y)
      | (Finite x, _) \<Rightarrow> Finite 0
      | (_, Finite y) \<Rightarrow> (if f_sign a * (if y < 0 then - 1 else 1) > 0 then PInf else NInf)
      | _ \<Rightarrow> NaN)"

definition f_less :: "f32 \<Rightarrow> f32 \<Rightarrow> bool" where
  \<comment> \<open>\<^verbatim>\<open>a < b\<close>: false as soon as one side is a NaN\<close>
  "f_less a b =
     (case (a, b) of
        (Finite x, Finite y) \<Rightarrow> x < y
      | (NaN, _) \<Rightarrow> False
      | (_, NaN) \<Rightarrow> False
      | (NInf, NInf) \<Rightarrow> False
      | (NInf, _) \<Rightarrow> True
      | (PInf, _) \<Rightarrow> False
      | (_, PInf) \<Rightarrow> True
      | _ \<Rightarrow> False)"

definition f_le :: "f32 \<Rightarrow> f32 \<Rightarrow> bool" where
  \<comment> \<open>\<^verbatim>\<open>a <= b\<close>\<close>
  "f_le a b = (f_less a b \<or> (a = b \<and> a \<noteq> NaN))"

definition f_of_int :: "int \<Rightarrow> f32" where
  \<comment> \<open>the conversion \<^verbatim>\<open>(float)n\<close> of an integer\<close>
  "f_of_int n = round32 (of_int n)"

section \<open>Narrative synchronisation (quest\_sync): story lock\<close>

text \<open>
  \<^verbatim>\<open>class global_story_lock\<close> of quest\_sync.hpp: four atomics. The clock reading
  \<^verbatim>\<open>high_resolution_clock::now().time_since_epoch().count()\<close> is an input of every
  operation that takes one; it is stored in a \<^verbatim>\<open>uint64_t\<close>.
\<close>

record global_story_lock =
  m_lock_active :: bool
  m_initiator_guid :: u64
  m_scene_id :: u32
  m_lock_timestamp :: u64

definition story_lock_init :: global_story_lock where
  "story_lock_init =
     \<lparr>m_lock_active = False, m_initiator_guid = 0, m_scene_id = 0, m_lock_timestamp = 0\<rparr>"

definition is_locked :: "global_story_lock \<Rightarrow> bool" where
  "is_locked l = m_lock_active l"

definition acquire_lock :: "u64 \<Rightarrow> u64 \<Rightarrow> u32 \<Rightarrow> global_story_lock \<Rightarrow> global_story_lock" where
  "acquire_lock now initiator_guid scene_id l =
     (if is_locked l then l
      else l\<lparr>m_lock_active := True, m_initiator_guid := initiator_guid,
             m_scene_id := scene_id, m_lock_timestamp := now\<rparr>)"

definition release_lock :: "global_story_lock \<Rightarrow> global_story_lock" where
  "release_lock l =
     (if \<not> is_locked l then l
      else l\<lparr>m_lock_active := False, m_initiator_guid := 0, m_scene_id := 0\<rparr>)"


section \<open>Narrative synchronisation (quest\_sync): fact registry\<close>

text \<open>
  \<^verbatim>\<open>struct quest_fact\<close>. The field \<^verbatim>\<open>value\<close> is \<open>fact_value\<close> here, \<^verbatim>\<open>timestamp\<close>
  is \<open>fact_timestamp\<close>.
\<close>

record quest_fact =
  fact_name :: string
  fact_value :: i32
  fact_timestamp :: u64
  player_guid :: u64
  fact_hash :: u32

text \<open>
  \<^verbatim>\<open>quest_fact_manager::m_fact_cache\<close> is a \<^verbatim>\<open>std::unordered_map<uint32_t, quest_fact>\<close>:
  an association list with one entry per key, whose length is the map's \<^verbatim>\<open>size()\<close>.
  \<^verbatim>\<open>compute_fact_hash\<close> casts \<^verbatim>\<open>std::hash<std::string>\<close> to 32 bits; the standard
  library's hash is the parameter \<open>H\<close> of every operation that hashes a name.

  \<^verbatim>\<open>prune_oldest_facts\<close> collects the ages in the map's iteration order and hands them to
  \<^verbatim>\<open>std::sort\<close>, which compares timestamps only. Neither the iteration order nor the order
  in which \<^verbatim>\<open>std::sort\<close> leaves entries of equal timestamp is specified, so which of them
  are evicted is not determined by the code. The sort is therefore a parameter
  \<open>std_sort\<close> of every operation that may prune; all that is known of it is \<open>sorts_by_age\<close>:
  it returns a rearrangement of its input in non-decreasing timestamp order.
\<close>

type_synonym fact_cache = "(u32 \<times> quest_fact) list"

definition FACT_CACHE_SIZE_LIMIT :: nat where
  "FACT_CACHE_SIZE_LIMIT = 1024"

definition prune_target :: nat where
  \<comment> \<open>\<^verbatim>\<open>static_cast<size_t>(FACT_CACHE_SIZE_LIMIT * 0.75)\<close>\<close>
  "prune_target = (FACT_CACHE_SIZE_LIMIT * 3) div 4"

fun erase_all :: "u32 list \<Rightarrow> fact_cache \<Rightarrow> fact_cache" where
  "erase_all [] c = c"
| "erase_all (h # hs) c = erase_all hs (AList.delete h c)"

type_synonym sorter = "(u32 \<times> u64) list \<Rightarrow> (u32 \<times> u64) list"

definition sorts_by_age :: "sorter \<Rightarrow> bool" where
  \<comment> \<open>what \<^verbatim>\<open>std::sort\<close> with the comparator \<^verbatim>\<open>a.second < b.second\<close> guarantees\<close>
  "sorts_by_age std_sort = (\<forall>xs. sorted (map snd (std_sort xs)) \<and> mset (std_sort xs) = mset xs)"

definition prune_oldest_facts :: "sorter \<Rightarrow> fact_cache \<Rightarrow> fact_cache" where
  "prune_oldest_facts std_sort c =
     (if length c \<le> prune_target then c
      else
        let fact_ages = map (\<lambda>(h, f). (h, fact_timestamp f)) c;
            sorted_ages = std_sort fact_ages;
            prune_count = length c - prune_target
        in erase_all (map fst (take prune_count sorted_ages)) c)"

definition register_fact ::
  "(string \<Rightarrow> u32) \<Rightarrow> sorter \<Rightarrow> u64 \<Rightarrow> string \<Rightarrow> i32 \<Rightarrow> u64 \<Rightarrow> fact_cache \<Rightarrow> fact_cache" where
  "register_fact H std_sort now name v guid c =
     (let fact = \<lparr>fact_name = name, fact_value = v, fact_timestamp = now,
                  player_guid = guid, fact_hash = H name\<rparr>;
          c' = AList.update (H name) fact c
      in if length c' > FACT_CACHE_SIZE_LIMIT then prune_oldest_facts std_sort c' else c')"

definition get_fact :: "(string \<Rightarrow> u32) \<Rightarrow> fact_cache \<Rightarrow> string \<Rightarrow> quest_fact option" where
  "get_fact H c name = map_of c (H name)"

definition has_fact :: "(string \<Rightarrow> u32) \<Rightarrow> fact_cache \<Rightarrow> string \<Rightarrow> bool" where
  "has_fact H c name = (get_fact H c name \<noteq> None)"

section \<open>Narrative synchronisation (quest\_sync): globals and operations\<close>

text \<open>
  What goes to the transport: \<^verbatim>\<open>network::send(master, channel, buffer)\<close> appends the
  channel name and the packet to \<open>wire\<close> (every buffer starts with the protocol tag, which
  is left out). In loopback mode the unlock packet is handed to
  \<^verbatim>\<open>receive_session_state_safe\<close> instead; \<open>looped\<close> records those packets.
\<close>

record fact_packet =
  fp_fact_name :: string
  fp_value :: i32
  fp_timestamp :: u64

record quest_lock_packet =
  lp_is_locked :: bool
  lp_scene_id :: u32
  lp_player_guid :: u64
  lp_timestamp :: u32

datatype packet = FactPacket fact_packet | QuestLockPacket quest_lock_packet

record quest_sync =
  g_story_lock :: global_story_lock
  g_fact_manager :: fact_cache
  g_W3mGlobalSyncInProgress :: bool
  g_W3mPendingFacts :: "quest_fact list"
  g_loopback_enabled :: bool
  packets_sent :: u32
  wire :: "(string \<times> packet) list"
  looped :: "quest_lock_packet list"

definition quest_sync_init :: quest_sync where
  "quest_sync_init =
     \<lparr>g_story_lock = story_lock_init, g_fact_manager = [], g_W3mGlobalSyncInProgress = False,
      g_W3mPendingFacts = [], g_loopback_enabled = False, packets_sent = 0, wire = [],
      looped = []\<rparr>"

text \<open>
  A call reads the clock several times; \<open>clk i\<close> is its \<open>i\<close>-th reading, counted from 0.
  A flush may prune at each registration; \<open>srt i\<close> is the sort of its \<open>i\<close>-th one.
\<close>

type_synonym clock = "nat \<Rightarrow> u64"

definition copy_string :: "nat \<Rightarrow> string \<Rightarrow> string" where
  \<comment> \<open>\<^verbatim>\<open>copy_string\<close> into a \<^verbatim>\<open>std::array<char, N>\<close>: at most \<open>N - 1\<close> characters.\<close>
  "copy_string N src = take (N - 1) src"

definition queue_fact_during_sync ::
  "(string \<Rightarrow> u32) \<Rightarrow> u64 \<Rightarrow> string \<Rightarrow> i32 \<Rightarrow> u64 \<Rightarrow> quest_sync \<Rightarrow> quest_sync" where
  "queue_fact_during_sync H now name v guid s =
     s\<lparr>g_W3mPendingFacts := g_W3mPendingFacts s @
          [\<lparr>fact_name = name, fact_value = v, fact_timestamp = now,
            player_guid = guid, fact_hash = H name\<rparr>]\<rparr>"

fun apply_pending ::
  "(string \<Rightarrow> u32) \<Rightarrow> (nat \<Rightarrow> sorter) \<Rightarrow> clock \<Rightarrow> nat \<Rightarrow> quest_fact list \<Rightarrow> fact_cache \<Rightarrow> fact_cache" where
  \<comment> \<open>the range-for of \<^verbatim>\<open>flush_pending_facts\<close>; \<open>i\<close> counts the registrations\<close>
  "apply_pending H srt clk i [] c = c"
| "apply_pending H srt clk i (f # fs) c =
     apply_pending H srt clk (Suc i) fs
       (register_fact H (srt i) (clk i) (fact_name f) (fact_value f) (player_guid f) c)"

definition flush_pending_facts ::
  "(string \<Rightarrow> u32) \<Rightarrow> (nat \<Rightarrow> sorter) \<Rightarrow> clock \<Rightarrow> quest_sync \<Rightarrow> quest_sync" where
  "flush_pending_facts H srt clk s =
     (if g_W3mPendingFacts s = [] then s
      else s\<lparr>g_fact_manager := apply_pending H srt clk 0 (g_W3mPendingFacts s) (g_fact_manager s),
             g_W3mPendingFacts := []\<rparr>)"

definition broadcast_quest_fact ::
  "(string \<Rightarrow> u32) \<Rightarrow> sorter \<Rightarrow> u64 \<Rightarrow> clock \<Rightarrow> string \<Rightarrow> i32 \<Rightarrow> quest_sync \<Rightarrow> quest_sync" where
  \<comment> \<open>\<open>guid\<close> is \<^verbatim>\<open>utils::identity::get_guid()\<close>\<close>
  "broadcast_quest_fact H std_sort guid clk name v s =
     (if g_W3mGlobalSyncInProgress s then queue_fact_during_sync H (clk 0) name v guid s
      else s\<lparr>g_fact_manager := register_fact H std_sort (clk 0) name v guid (g_fact_manager s),
             wire := wire s @
               [(''fact'', FactPacket \<lparr>fp_fact_name = copy_string 128 name, fp_value = v,
                                      fp_timestamp = clk 1\<rparr>)]\<rparr>)"

definition W3mBroadcastFact ::
  "(string \<Rightarrow> u32) \<Rightarrow> sorter \<Rightarrow> u64 \<Rightarrow> clock \<Rightarrow> string \<Rightarrow> i32 \<Rightarrow> quest_sync \<Rightarrow> quest_sync" where
  "W3mBroadcastFact H std_sort guid clk name v s = broadcast_quest_fact H std_sort guid clk name v s"

definition W3mAtomicAddFact ::
  "(string \<Rightarrow> u32) \<Rightarrow> sorter \<Rightarrow> u64 \<Rightarrow> clock \<Rightarrow> string \<Rightarrow> i32 \<Rightarrow> quest_sync \<Rightarrow> quest_sync" where
  "W3mAtomicAddFact H std_sort guid clk name v s =
     (if g_W3mGlobalSyncInProgress s then queue_fact_during_sync H (clk 0) name v guid s
      else W3mBroadcastFact H std_sort guid clk name v s)"

definition acquire_global_story_lock :: "clock \<Rightarrow> u64 \<Rightarrow> u32 \<Rightarrow> quest_sync \<Rightarrow> quest_sync" where
  "acquire_global_story_lock clk initiator_guid scene_id s =
     s\<lparr>g_W3mGlobalSyncInProgress := True,
       g_story_lock := acquire_lock (clk 0) initiator_guid scene_id (g_story_lock s)\<rparr>"

definition release_channel :: "bool \<Rightarrow> string" where
  "release_channel forced = (if forced then ''story_lock_release_forced'' else ''quest_lock'')"

definition release_global_story_lock ::
  "(string \<Rightarrow> u32) \<Rightarrow> (nat \<Rightarrow> sorter) \<Rightarrow> clock \<Rightarrow> bool \<Rightarrow> quest_sync \<Rightarrow> quest_sync" where
  "release_global_story_lock H srt clk forced s =
     (let initiator_guid = m_initiator_guid (g_story_lock s);
          scene_id = m_scene_id (g_story_lock s);
          s1 = s\<lparr>g_story_lock := release_lock (g_story_lock s),
                 g_W3mGlobalSyncInProgress := False\<rparr>;
          s2 = flush_pending_facts H srt clk s1;
          pkt = \<lparr>lp_is_locked = False, lp_scene_id = scene_id, lp_player_guid = initiator_guid,
                 lp_timestamp = ucast (clk (length (g_W3mPendingFacts s1)))\<rparr>;
          s3 = s2\<lparr>packets_sent := packets_sent s2 + 1\<rparr>
      in if g_loopback_enabled s3 then s3\<lparr>looped := looped s3 @ [pkt]\<rparr>
         else s3\<lparr>wire := wire s3 @ [(release_channel forced, QuestLockPacket pkt)]\<rparr>)"

definition W3mReleaseStoryLock ::
  "(string \<Rightarrow> u32) \<Rightarrow> (nat \<Rightarrow> sorter) \<Rightarrow> clock \<Rightarrow> quest_sync \<Rightarrow> quest_sync" where
  "W3mReleaseStoryLock H srt clk s = release_global_story_lock H srt clk False s"

definition STORY_LOCK_TIMEOUT_MS :: u64 where
  "STORY_LOCK_TIMEOUT_MS = 15000"

definition elapsed_ms :: "u64 \<Rightarrow> u64 \<Rightarrow> u64" where
  \<comment> \<open>\<^verbatim>\<open>(now - lock_timestamp) / 1000000\<close> in \<^verbatim>\<open>uint64_t\<close>: the subtraction wraps\<close>
  "elapsed_ms now lock_timestamp = (now - lock_timestamp) div 1000000"

definition check_story_lock_timeout ::
  "(string \<Rightarrow> u32) \<Rightarrow> (nat \<Rightarrow> sorter) \<Rightarrow> clock \<Rightarrow> quest_sync \<Rightarrow> quest_sync" where
  "check_story_lock_timeout H srt clk s =
     (if \<not> is_locked (g_story_lock s) then s
      else if elapsed_ms (clk 0) (m_lock_timestamp (g_story_lock s)) > STORY_LOCK_TIMEOUT_MS
           then release_global_story_lock H srt (\<lambda>i. clk (Suc i)) True s
           else s)"

definition broadcast_narrative_heartbeat ::
  "(string \<Rightarrow> u32) \<Rightarrow> (nat \<Rightarrow> sorter) \<Rightarrow> clock \<Rightarrow> quest_sync \<Rightarrow> quest_sync" where
  \<comment> \<open>besides printing the fact count and the world-state hash it only runs the check\<close>
  "broadcast_narrative_heartbeat H srt clk s = check_story_lock_timeout H srt clk s"

text \<open>
  \<^verbatim>\<open>post_load\<close> hands the heartbeat to \<^verbatim>\<open>scheduler::loop\<close> with an interval of 5000 ms. The
  scheduler is not among the sources, so a run of the loop is given by what it does to
  this component: the list of the clocks its calls read, one clock per call.
  \<open>on_schedule prev clks\<close> says of such a run that every call starts no earlier than the
  one before it and at most one interval after it, \<open>prev\<close> being the time before the
  first call.
\<close>

definition HEARTBEAT_INTERVAL_MS :: nat where
  \<comment> \<open>\<^verbatim>\<open>scheduler::loop(..., std::chrono::milliseconds(5000))\<close>\<close>
  "HEARTBEAT_INTERVAL_MS = 5000"

fun heartbeat_loop ::
  "(string \<Rightarrow> u32) \<Rightarrow> (nat \<Rightarrow> sorter) \<Rightarrow> clock list \<Rightarrow> quest_sync \<Rightarrow> quest_sync" where
  "heartbeat_loop H srt [] s = s"
| "heartbeat_loop H srt (clk # clks) s =
     heartbeat_loop H srt clks (broadcast_narrative_heartbeat H srt clk s)"

fun on_schedule :: "nat \<Rightarrow> clock list \<Rightarrow> bool" where
  "on_schedule prev [] = True"
| "on_schedule prev (clk # clks) =
     (prev \<le> unat (clk 0) \<and> unat (clk 0) \<le> prev + HEARTBEAT_INTERVAL_MS * 1000000 \<and>
      on_schedule (unat (clk 0)) clks)"

section \<open>Packet listeners (scripting\_experiments): handshake gate\<close>

text \<open>
  The globals of the bridge component that the packet listeners touch: the handshake
  flag, session id and peer name, the telemetry counter of received packets, and the set
  of achievements unlocked in this session. Console output is not modelled.
\<close>

record bridge =
  g_handshake_complete :: bool
  g_session_id :: u64
  g_handshake_player_name :: string
  packets_received :: u32
  m_unlocked_achievements :: "string set"

definition bridge_init :: bridge where
  "bridge_init =
     \<lparr>g_handshake_complete = False, g_session_id = 0, g_handshake_player_name = [],
      packets_received = 0, m_unlocked_achievements = {}\<rparr>"

record handshake_packet =
  hs_session_id :: u64
  hs_player_guid :: u32
  hs_protocol_version :: u32
  hs_player_name :: string
  hs_timestamp :: u32

record achievement_packet =
  ach_achievement_id :: string
  ach_player_guid :: u64
  ach_timestamp :: u32

text \<open>
  What the listeners take from outside this component: the master server's address, the
  constant \<^verbatim>\<open>game::PROTOCOL\<close>, and \<^verbatim>\<open>utils::buffer_deserializer\<close>. A payload is a
  byte string; \<open>read_uint32 d\<close> is the first \<^verbatim>\<open>buffer.read<uint32_t>()\<close> on it, and
  \<open>read_handshake d\<close>, \<open>read_achievement d\<close> are the \<^verbatim>\<open>buffer.read<Packet>()\<close> that
  follows the tag. \<open>None\<close> is the exception a read throws.
\<close>

type_synonym bytes = "8 word list"

record 'addr transport =
  get_master_server :: 'addr
  PROTOCOL :: u32
  read_uint32 :: "bytes \<Rightarrow> u32 option"
  read_handshake :: "bytes \<Rightarrow> handshake_packet option"
  read_achievement :: "bytes \<Rightarrow> achievement_packet option"

definition is_handshake_complete :: "bridge \<Rightarrow> bool" where
  "is_handshake_complete s = g_handshake_complete s"

definition set_handshake_complete :: "u64 \<Rightarrow> string \<Rightarrow> bridge \<Rightarrow> bridge" where
  "set_handshake_complete session_id player_name s =
     s\<lparr>g_session_id := session_id, g_handshake_player_name := player_name,
       g_handshake_complete := True\<rparr>"

definition increment_received :: "bridge \<Rightarrow> bridge" where
  "increment_received s = s\<lparr>packets_received := packets_received s + 1\<rparr>"

text \<open>
  A handler is a function on the globals: it returns them as they are when it returns or
  when it throws (the \<^verbatim>\<open>catch\<close> blocks of \<^verbatim>\<open>receive_packet_safe\<close> only print).
\<close>

type_synonym 'addr handler = "'addr \<Rightarrow> bytes \<Rightarrow> bridge \<Rightarrow> bridge"

definition receive_packet_safe ::
  "'addr transport \<Rightarrow> string \<Rightarrow> 'addr \<Rightarrow> bytes \<Rightarrow> 'addr handler \<Rightarrow> bool \<Rightarrow> bridge \<Rightarrow> bridge" where
  "receive_packet_safe T packet_type_name address d handler require_handshake s =
     (if address \<noteq> get_master_server T then s
      else if require_handshake \<and> \<not> is_handshake_complete s then s
      else case read_uint32 T d of
             None \<Rightarrow> s
           | Some protocol \<Rightarrow> if protocol \<noteq> PROTOCOL T then s else handler address d s)"

definition strnlen_name :: "nat \<Rightarrow> string \<Rightarrow> string" where
  \<comment> \<open>\<^verbatim>\<open>std::string(p, strnlen(p, N))\<close>: up to the first NUL, at most \<open>N\<close> characters\<close>
  "strnlen_name N cs = takeWhile (\<lambda>c. c \<noteq> CHR 0x00) (take N cs)"

definition handshake_handler :: "'addr transport \<Rightarrow> 'addr handler" where
  "handshake_handler T address d s =
     (case read_uint32 T d of
        None \<Rightarrow> s
      | Some _ \<Rightarrow>
          (case read_handshake T d of
             None \<Rightarrow> s
           | Some pkt \<Rightarrow>
               if hs_session_id pkt \<noteq> 0
               then set_handshake_complete (hs_session_id pkt)
                      (strnlen_name 32 (hs_player_name pkt)) s
               else s))"

definition achievement_handler :: "'addr transport \<Rightarrow> 'addr handler" where
  "achievement_handler T address d s =
     (case read_uint32 T d of
        None \<Rightarrow> s
      | Some _ \<Rightarrow>
          (case read_achievement T d of
             None \<Rightarrow> s
           | Some pkt \<Rightarrow>
               let achievement_id = strnlen_name 64 (ach_achievement_id pkt)
               in if achievement_id \<in> m_unlocked_achievements s then s
                  else s\<lparr>m_unlocked_achievements :=
                           insert achievement_id (m_unlocked_achievements s)\<rparr>))"

definition print_only_handler :: "'addr handler" where
  \<comment> \<open>the loot, session-state and heartbeat lambdas: they decode and print\<close>
  "print_only_handler address d s = s"

definition receive_inventory_safe :: "'addr transport \<Rightarrow> 'addr \<Rightarrow> bytes \<Rightarrow> bridge \<Rightarrow> bridge" where
  "receive_inventory_safe T address d s =
     receive_packet_safe T ''INVENTORY'' address d print_only_handler True (increment_received s)"

definition receive_handshake_safe :: "'addr transport \<Rightarrow> 'addr \<Rightarrow> bytes \<Rightarrow> bridge \<Rightarrow> bridge" where
  "receive_handshake_safe T address d s =
     receive_packet_safe T ''HANDSHAKE'' address d (handshake_handler T) False (increment_received s)"

definition receive_session_state_safe :: "'addr transport \<Rightarrow> 'addr \<Rightarrow> bytes \<Rightarrow> bridge \<Rightarrow> bridge" where
  "receive_session_state_safe T address d s =
     receive_packet_safe T ''SESSION_STATE'' address d print_only_handler True (increment_received s)"

definition receive_achievement_safe :: "'addr transport \<Rightarrow> 'addr \<Rightarrow> bytes \<Rightarrow> bridge \<Rightarrow> bridge" where
  "receive_achievement_safe T address d s =
     receive_packet_safe T ''ACHIEVEMENT'' address d (achievement_handler T) True (increment_received s)"

definition receive_heartbeat_safe :: "'addr transport \<Rightarrow> 'addr \<Rightarrow> bytes \<Rightarrow> bridge \<Rightarrow> bridge" where
  "receive_heartbeat_safe T address d s =
     receive_packet_safe T ''HEARTBEAT'' address d print_only_handler True (increment_received s)"

text \<open>The five \<^verbatim>\<open>network::on\<close> registrations of \<^verbatim>\<open>post_load\<close>.\<close>

datatype channel = Loot | QuestLock | Achievement | Heartbeat | Handshake

fun on_packet :: "'addr transport \<Rightarrow> channel \<Rightarrow> 'addr \<Rightarrow> bytes \<Rightarrow> bridge \<Rightarrow> bridge" where
  "on_packet T Loot = receive_inventory_safe T"
| "on_packet T QuestLock = receive_session_state_safe T"
| "on_packet T Achievement = receive_achievement_safe T"
| "on_packet T Heartbeat = receive_heartbeat_safe T"
| "on_packet T Handshake = receive_handshake_safe T"

section \<open>Script layer (w3mp\_final.ws)\<close>

text \<open>
  The fields the script adds to \<^verbatim>\<open>CR4Player\<close>, the player's inventory, and what it uses
  of \<^verbatim>\<open>theGame\<close>. WitcherScript's \<^verbatim>\<open>float\<close> is binary32: the values the script computes
  with (the time multiplier, the engine time of the smoothing, the clock difference) are
  of type \<open>f32\<close>; the engine time stored in a queue entry is only carried along and is
  kept as the real number it denotes. WitcherScript's \<^verbatim>\<open>int\<close> is modelled by \<open>int\<close>. The
  engine's natives are modelled by what the script relies on:
  \<^verbatim>\<open>AddAnItem\<close> and \<^verbatim>\<open>RemoveItemByName\<close> add to and take from the stored quantity,
  \<^verbatim>\<open>SetGameTime(GameTimeCreateFromGameSeconds(n))\<close> makes \<^verbatim>\<open>GameTimeToSeconds(GetGameTime())\<close>
  equal \<open>n\<close>, and \<^verbatim>\<open>FactsAdd\<close>, \<^verbatim>\<open>FactsRemove\<close> are recorded in call order.
\<close>

record W3mPendingFact =
  factName :: string
  pf_value :: int
  validFor :: int
  pf_timestamp :: real

datatype facts_call = FactsAdd string int int | FactsRemove string

record CR4Player =
  w3mGlobalSyncInProgress :: bool
  w3mPendingFacts :: "W3mPendingFact list"
  w3mTimeSmoothingActive :: bool
  w3mOriginalTimeMultiplier :: f32
  w3mSmoothingStartTime :: f32
  w3mTargetTimeOffset :: f32
  inv :: "(string \<Rightarrow> int) option"

record game =
  thePlayer :: "CR4Player option"
  GameSeconds :: int
  TimeMultiplier :: f32
  facts_calls :: "facts_call list"

datatype script_error = NullAccess

definition W3mNativeFactsAdd :: "string \<Rightarrow> int \<Rightarrow> int \<Rightarrow> game \<Rightarrow> game" where
  "W3mNativeFactsAdd name v valid_for g = g\<lparr>facts_calls := facts_calls g @ [FactsAdd name v valid_for]\<rparr>"

definition W3mNativeFactsRemove :: "string \<Rightarrow> game \<Rightarrow> game" where
  "W3mNativeFactsRemove name g = g\<lparr>facts_calls := facts_calls g @ [FactsRemove name]\<rparr>"

definition sync_in_progress :: "game \<Rightarrow> bool" where
  \<comment> \<open>\<^verbatim>\<open>thePlayer && thePlayer.w3mGlobalSyncInProgress\<close>\<close>
  "sync_in_progress g = (case thePlayer g of None \<Rightarrow> False | Some p \<Rightarrow> w3mGlobalSyncInProgress p)"

definition script_W3mAtomicAddFact :: "real \<Rightarrow> string \<Rightarrow> int \<Rightarrow> int \<Rightarrow> game \<Rightarrow> game" where
  \<comment> \<open>\<open>engine_time\<close> is \<^verbatim>\<open>theGame.GetEngineTime()\<close>\<close>
  "script_W3mAtomicAddFact engine_time name v valid_for g =
     (case thePlayer g of
        Some p \<Rightarrow>
          if w3mGlobalSyncInProgress p
          then g\<lparr>thePlayer := Some (p\<lparr>w3mPendingFacts := w3mPendingFacts p @
                  [\<lparr>factName = name, pf_value = v, validFor = valid_for,
                    pf_timestamp = engine_time\<rparr>]\<rparr>)\<rparr>
          else W3mNativeFactsAdd name v valid_for g
      | None \<Rightarrow> W3mNativeFactsAdd name v valid_for g)"

fun replay_pending :: "W3mPendingFact list \<Rightarrow> game \<Rightarrow> game" where
  "replay_pending [] g = g"
| "replay_pending (pendingFact # rest) g =
     replay_pending rest
       (if validFor pendingFact > 0
        then W3mNativeFactsAdd (factName pendingFact) (pf_value pendingFact) (validFor pendingFact) g
        else W3mNativeFactsRemove (factName pendingFact) g)"

definition W3mFlushPendingFacts :: "game \<Rightarrow> script_error + game" where
  "W3mFlushPendingFacts g =
     (case thePlayer g of
        None \<Rightarrow> Inl NullAccess
      | Some p \<Rightarrow>
          Inr ((replay_pending (w3mPendingFacts p) g)
                 \<lparr>thePlayer := Some (p\<lparr>w3mPendingFacts := [], w3mGlobalSyncInProgress := False\<rparr>)\<rparr>))"

definition SetGameTime :: "int \<Rightarrow> game \<Rightarrow> game" where
  "SetGameTime seconds g = g\<lparr>GameSeconds := seconds\<rparr>"

definition SetTimeMultiplier :: "f32 \<Rightarrow> game \<Rightarrow> game" where
  "SetTimeMultiplier m g = g\<lparr>TimeMultiplier := m\<rparr>"

definition timeDiff :: "int \<Rightarrow> game \<Rightarrow> f32" where
  \<comment> \<open>\<^verbatim>\<open>(float)hostGameTime - (float)currentSeconds\<close>: two conversions and a subtraction\<close>
  "timeDiff hostGameTime g = f_sub (f_of_int hostGameTime) (f_of_int (GameSeconds g))"

definition AbsF :: "f32 \<Rightarrow> f32" where
  "AbsF x = f_abs x"

definition smoothingDuration :: f32 where
  "smoothingDuration = Finite 3"

definition W3mSmoothTimeReconciliation :: "f32 \<Rightarrow> f32 \<Rightarrow> int \<Rightarrow> game \<Rightarrow> script_error + game" where
  \<comment> \<open>\<open>t0\<close>, \<open>t1\<close>: \<^verbatim>\<open>GetEngineTime()\<close> when smoothing starts and when progress is computed\<close>
  "W3mSmoothTimeReconciliation t0 t1 hostGameTime g =
     (let d = timeDiff hostGameTime g in
      if f_le (Finite 5) (AbsF d) \<and> f_le (AbsF d) (Finite 10) then
        (case thePlayer g of
           None \<Rightarrow> Inl NullAccess
         | Some p \<Rightarrow>
             let p1 = (if \<not> w3mTimeSmoothingActive p
                       then p\<lparr>w3mTimeSmoothingActive := True,
                              w3mOriginalTimeMultiplier := TimeMultiplier g,
                              w3mSmoothingStartTime := t0,
                              w3mTargetTimeOffset := d\<rparr>
                       else p);
                 adjustmentRate = f_sub t1 (w3mSmoothingStartTime p1)
             in if f_less adjustmentRate smoothingDuration
                then Inr (SetTimeMultiplier
                            (f_add (w3mOriginalTimeMultiplier p1)
                               (f_div (w3mTargetTimeOffset p1) smoothingDuration))
                            (g\<lparr>thePlayer := Some p1\<rparr>))
                else Inr (SetGameTime hostGameTime
                            (SetTimeMultiplier (w3mOriginalTimeMultiplier p1)
                               (g\<lparr>thePlayer := Some (p1\<lparr>w3mTimeSmoothingActive := False\<rparr>)\<rparr>))))
      else if f_less (Finite 10) (AbsF d) then Inr (SetGameTime hostGameTime g)
      else Inr g)"

definition Crowns :: string where
  "Crowns = ''Crowns''"

definition GetItemQuantityByName :: "string \<Rightarrow> (string \<Rightarrow> int) \<Rightarrow> int" where
  "GetItemQuantityByName name items = items name"

definition AddAnItem :: "string \<Rightarrow> int \<Rightarrow> (string \<Rightarrow> int) \<Rightarrow> (string \<Rightarrow> int)" where
  "AddAnItem name quantity items = items(name := items name + quantity)"

definition RemoveItemByName :: "string \<Rightarrow> int \<Rightarrow> (string \<Rightarrow> int) \<Rightarrow> (string \<Rightarrow> int)" where
  "RemoveItemByName name quantity items = items(name := items name - quantity)"

definition W3mReconcileCrowns :: "int \<Rightarrow> u64 \<Rightarrow> game \<Rightarrow> game" where
  "W3mReconcileCrowns remoteCrowns remoteGuid g =
     (case thePlayer g of
        None \<Rightarrow> g
      | Some p \<Rightarrow>
          (case inv p of
             None \<Rightarrow> g
           | Some items \<Rightarrow>
               let localCrowns = GetItemQuantityByName Crowns items;
                   diff = remoteCrowns - localCrowns
               in if diff \<noteq> 0
                  then if diff > 0
                       then g\<lparr>thePlayer := Some (p\<lparr>inv := Some (AddAnItem Crowns diff items)\<rparr>)\<rparr>
                       else g\<lparr>thePlayer := Some (p\<lparr>inv := Some (RemoveItemByName Crowns \<bar>diff\<bar> items)\<rparr>)\<rparr>
                  else g))"

definition W3mGetTotalCrowns :: "game \<Rightarrow> int" where
  "W3mGetTotalCrowns g =
     (case thePlayer g of
        None \<Rightarrow> 0
      | Some p \<Rightarrow> (case inv p of None \<Rightarrow> 0 | Some items \<Rightarrow> GetItemQuantityByName Crowns items))"

section \<open>Snapshot interpolator (interpolator.hpp)\<close>

text \<open>
  The components of a state are binary32 values, and \<^verbatim>\<open>lerp\<close>, \<^verbatim>\<open>lerp_angle\<close> and the
  extrapolation compute in binary32, one rounding per operation. A
  \<^verbatim>\<open>steady_clock::time_point\<close> is its tick count in nanoseconds, an \<open>int\<close> (a 64-bit count
  in the code); \<^verbatim>\<open>duration_cast<milliseconds>\<close> truncates towards zero. The two \<^verbatim>\<open>while\<close>
  loops of \<^verbatim>\<open>lerp_angle\<close> need not end (a delta so large that subtracting 360 rounds back
  to it, or an infinite one, is never brought below 180): a function that calls
  \<^verbatim>\<open>lerp_angle\<close> returns an \<open>option\<close>, \<open>None\<close> standing for a call that never returns.
\<close>

record Vector =
  vx :: f32
  vy :: f32
  vz :: f32
  vw :: f32

record EulerAngles =
  ex :: f32
  ey :: f32
  ez :: f32

record player_state_packet =
  ps_player_guid :: u64
  position :: Vector
  angles :: EulerAngles
  velocity :: Vector
  move_type :: i32
  speed :: f32

record snapshot =
  snap_state :: player_state_packet
  snap_timestamp :: int
  snap_valid :: bool

record player_interpolator =
  snapshots :: "snapshot list"
  write_index :: nat
  snapshot_count :: nat
  in_extrapolation :: bool
  blend_active :: bool
  blend_start_time :: int
  blend_start_state :: player_state_packet
  blend_target_state :: player_state_packet
  extrapolation_anchor :: "player_state_packet option"
  last_returned_state :: "player_state_packet option"

definition SNAPSHOT_BUFFER_SIZE :: nat where
  "SNAPSHOT_BUFFER_SIZE = 3"

definition INTERPOLATION_DELAY_MS :: int where
  "INTERPOLATION_DELAY_MS = 100"

definition RECOVERY_BLEND_DURATION_MS :: int where
  "RECOVERY_BLEND_DURATION_MS = 500"

definition zero_state :: player_state_packet where
  "zero_state =
     \<lparr>ps_player_guid = 0,
      position = \<lparr>vx = Finite 0, vy = Finite 0, vz = Finite 0, vw = Finite 0\<rparr>,
      angles = \<lparr>ex = Finite 0, ey = Finite 0, ez = Finite 0\<rparr>,
      velocity = \<lparr>vx = Finite 0, vy = Finite 0, vz = Finite 0, vw = Finite 0\<rparr>,
      move_type = 0, speed = Finite 0\<rparr>"

definition empty_snapshot :: snapshot where
  "empty_snapshot = \<lparr>snap_state = zero_state, snap_timestamp = 0, snap_valid = False\<rparr>"

definition interpolator_init :: player_interpolator where
  "interpolator_init =
     \<lparr>snapshots = [empty_snapshot, empty_snapshot, empty_snapshot],
      write_index = 0, snapshot_count = 0, in_extrapolation = False, blend_active = False,
      blend_start_time = 0, blend_start_state = zero_state, blend_target_state = zero_state,
      extrapolation_anchor = None, last_returned_state = None\<rparr>"

definition milliseconds :: "int \<Rightarrow> int" where
  \<comment> \<open>\<^verbatim>\<open>std::chrono::milliseconds(n)\<close> in ticks\<close>
  "milliseconds n = n * 1000000"

definition duration_cast_ms :: "int \<Rightarrow> int" where
  "duration_cast_ms d = (if d \<ge> 0 then d div 1000000 else - ((- d) div 1000000))"

definition clamp :: "f32 \<Rightarrow> f32 \<Rightarrow> f32 \<Rightarrow> f32" where
  \<comment> \<open>\<^verbatim>\<open>std::clamp(v, lo, hi)\<close>: \<^verbatim>\<open>(v < lo) ? lo : (hi < v) ? hi : v\<close>\<close>
  "clamp v lo hi = (if f_less v lo then lo else if f_less hi v then hi else v)"

definition lerp :: "f32 \<Rightarrow> f32 \<Rightarrow> f32 \<Rightarrow> f32" where
  \<comment> \<open>\<^verbatim>\<open>a + (b - a) * t\<close>\<close>
  "lerp a b t = f_add a (f_mul (f_sub b a) t)"

partial_function (option) wrap_down :: "f32 \<Rightarrow> f32 option" where
  \<comment> \<open>\<^verbatim>\<open>while (diff > 180.0f) diff -= 360.0f;\<close>\<close>
  "wrap_down d = (if f_less (Finite 180) d then wrap_down (f_sub d (Finite 360)) else Some d)"

partial_function (option) wrap_up :: "f32 \<Rightarrow> f32 option" where
  \<comment> \<open>\<^verbatim>\<open>while (diff < -180.0f) diff += 360.0f;\<close>\<close>
  "wrap_up d = (if f_less d (Finite (- 180)) then wrap_up (f_add d (Finite 360)) else Some d)"

definition normalized :: "f32 \<Rightarrow> f32 option" where
  \<comment> \<open>the two loops, one after the other: what \<^verbatim>\<open>diff\<close> holds when both have ended\<close>
  "normalized diff = (case wrap_down diff of None \<Rightarrow> None | Some d \<Rightarrow> wrap_up d)"

definition lerp_angle :: "f32 \<Rightarrow> f32 \<Rightarrow> f32 \<Rightarrow> f32 option" where
  "lerp_angle a b t =
     (case normalized (f_sub b a) of
        None \<Rightarrow> None
      | Some diff \<Rightarrow> Some (f_add a (f_mul diff t)))"

definition lerp_vector :: "Vector \<Rightarrow> Vector \<Rightarrow> f32 \<Rightarrow> Vector" where
  "lerp_vector a b t =
     \<lparr>vx = lerp (vx a) (vx b) t, vy = lerp (vy a) (vy b) t,
      vz = lerp (vz a) (vz b) t, vw = lerp (vw a) (vw b) t\<rparr>"

definition lerp_angles :: "EulerAngles \<Rightarrow> EulerAngles \<Rightarrow> f32 \<Rightarrow> EulerAngles option" where
  "lerp_angles a b t =
     (case lerp_angle (ex a) (ex b) t of
        None \<Rightarrow> None
      | Some x \<Rightarrow>
          (case lerp_angle (ey a) (ey b) t of
             None \<Rightarrow> None
           | Some y \<Rightarrow>
               (case lerp_angle (ez a) (ez b) t of
                  None \<Rightarrow> None
                | Some z \<Rightarrow> Some \<lparr>ex = x, ey = y, ez = z\<rparr>)))"

definition blend_packets ::
  "player_state_packet \<Rightarrow> player_state_packet \<Rightarrow> f32 \<Rightarrow> player_state_packet option" where
  \<comment> \<open>also the interpolation of \<^verbatim>\<open>get_interpolated_state\<close>, which starts from the older state\<close>
  "blend_packets from to t =
     (case lerp_angles (angles from) (angles to) t of
        None \<Rightarrow> None
      | Some rotation \<Rightarrow>
          Some (from\<lparr>position := lerp_vector (position from) (position to) t,
                     angles := rotation,
                     velocity := lerp_vector (velocity from) (velocity to) t,
                     speed := lerp (speed from) (speed to) t\<rparr>))"

definition add_snapshot :: "int \<Rightarrow> player_state_packet \<Rightarrow> player_interpolator \<Rightarrow> player_interpolator" where
  "add_snapshot now pkt s =
     s\<lparr>snapshots := (snapshots s)[write_index s :=
          \<lparr>snap_state = pkt, snap_timestamp = now, snap_valid = True\<rparr>],
       write_index := (write_index s + 1) mod SNAPSHOT_BUFFER_SIZE,
       snapshot_count := (if snapshot_count s < SNAPSHOT_BUFFER_SIZE
                          then snapshot_count s + 1 else snapshot_count s)\<rparr>"

fun newest :: "snapshot option \<Rightarrow> snapshot list \<Rightarrow> snapshot option" where
  \<comment> \<open>the loop of \<^verbatim>\<open>get_latest_snapshot_ptr\<close> and \<^verbatim>\<open>get_most_recent_snapshot\<close>\<close>
  "newest latest [] = latest"
| "newest latest (snap # rest) =
     newest (if \<not> snap_valid snap then latest
             else case latest of
                    None \<Rightarrow> Some snap
                  | Some l \<Rightarrow> if snap_timestamp snap > snap_timestamp l then Some snap else latest)
            rest"

definition get_latest_snapshot_ptr :: "player_interpolator \<Rightarrow> snapshot option" where
  "get_latest_snapshot_ptr s = newest None (snapshots s)"

definition get_most_recent_snapshot :: "player_interpolator \<Rightarrow> player_state_packet option" where
  "get_most_recent_snapshot s = map_option snap_state (newest None (snapshots s))"

definition get_extrapolated_position :: "int \<Rightarrow> player_interpolator \<Rightarrow> player_state_packet option" where
  "get_extrapolated_position now s =
     (case get_most_recent_snapshot s of
        None \<Rightarrow> None
      | Some most_recent \<Rightarrow>
          (case get_latest_snapshot_ptr s of
             None \<Rightarrow> Some most_recent
           | Some latest_snapshot \<Rightarrow>
               let age_ms = duration_cast_ms (now - snap_timestamp latest_snapshot) in
               if age_ms \<le> 100 then Some most_recent
               else
                 let delta_time_seconds =
                       f_div (f_of_int (age_ms - INTERPOLATION_DELAY_MS)) (Finite 1000);
                     p = position most_recent; v = velocity most_recent
                 in Some (most_recent\<lparr>position :=
                            p\<lparr>vx := f_add (vx p) (f_mul (vx v) delta_time_seconds),
                              vy := f_add (vy p) (f_mul (vy v) delta_time_seconds),
                              vz := f_add (vz p) (f_mul (vz v) delta_time_seconds)\<rparr>\<rparr>)))"

definition handle_extrapolation ::
  "int \<Rightarrow> player_interpolator \<Rightarrow> player_state_packet option \<times> player_interpolator" where
  "handle_extrapolation now s =
     (case get_extrapolated_position now s of
        None \<Rightarrow> (None, s)
      | Some e \<Rightarrow>
          (Some e, s\<lparr>in_extrapolation := True, blend_active := False,
                     extrapolation_anchor := Some e, last_returned_state := Some e\<rparr>))"

definition begin_blend ::
  "player_state_packet \<Rightarrow> player_state_packet \<Rightarrow> int \<Rightarrow> player_interpolator \<Rightarrow> player_interpolator" where
  "begin_blend from_state to_state now s =
     s\<lparr>blend_active := True, blend_start_time := now,
       blend_start_state := from_state, blend_target_state := to_state\<rparr>"

definition apply_blend_if_needed ::
  "player_state_packet \<Rightarrow> int \<Rightarrow> player_interpolator \<Rightarrow>
   (player_state_packet \<times> player_interpolator) option" where
  "apply_blend_if_needed target_state now s =
     (let s1 = (case extrapolation_anchor s of
                  Some anchor \<Rightarrow>
                    if in_extrapolation s
                    then (begin_blend anchor target_state now s)\<lparr>in_extrapolation := False\<rparr>
                    else s
                | None \<Rightarrow> s)
      in if \<not> blend_active s1 then Some (target_state, s1)
         else
           let elapsed = duration_cast_ms (now - blend_start_time s1);
               t = clamp (f_div (f_of_int elapsed) (f_of_int RECOVERY_BLEND_DURATION_MS))
                     (Finite 0) (Finite 1);
               s2 = s1\<lparr>blend_target_state := target_state\<rparr>
           in case blend_packets (blend_start_state s2) (blend_target_state s2) t of
                None \<Rightarrow> None
              | Some blended \<Rightarrow>
                  if elapsed \<ge> RECOVERY_BLEND_DURATION_MS
                  then Some (blended, s2\<lparr>blend_active := False, extrapolation_anchor := None\<rparr>)
                  else Some (blended, s2))"

fun bracket ::
  "int \<Rightarrow> snapshot option \<times> snapshot option \<Rightarrow> snapshot list \<Rightarrow> snapshot option \<times> snapshot option" where
  \<comment> \<open>the search loop of \<^verbatim>\<open>get_interpolated_state\<close>: \<open>(older, newer)\<close>\<close>
  "bracket render_time (older, newer) [] = (older, newer)"
| "bracket render_time (older, newer) (snap # rest) =
     bracket render_time
       (if \<not> snap_valid snap then (older, newer)
        else if snap_timestamp snap \<le> render_time
        then (case older of
                None \<Rightarrow> (Some snap, newer)
              | Some ol \<Rightarrow> if snap_timestamp snap > snap_timestamp ol then (Some snap, newer)
                           else (older, newer))
        else (case newer of
                None \<Rightarrow> (older, Some snap)
              | Some nw \<Rightarrow> if snap_timestamp snap < snap_timestamp nw then (older, Some snap)
                           else (older, newer)))
       rest"

definition get_interpolated_state ::
  "int \<Rightarrow> int \<Rightarrow> player_interpolator \<Rightarrow>
   (player_state_packet option \<times> player_interpolator) option" where
  \<comment> \<open>\<open>now\<close>: the clock read on entry; \<open>now'\<close>: the clock read by the extrapolation path\<close>
  "get_interpolated_state now now' s =
     (if snapshot_count s < 2 then Some (handle_extrapolation now' s)
      else
        let render_time = now - milliseconds INTERPOLATION_DELAY_MS in
        case bracket render_time (None, None) (take (snapshot_count s) (snapshots s)) of
          (Some older, Some newer) \<Rightarrow>
            let time_diff = duration_cast_ms (snap_timestamp newer - snap_timestamp older) in
            if time_diff = 0 then Some (Some (snap_state older), s)
            else
              let elapsed = duration_cast_ms (render_time - snap_timestamp older);
                  t = f_div (f_of_int elapsed) (f_of_int time_diff);
                  clamped_t = clamp t (Finite 0) (Finite 1)
              in (case blend_packets (snap_state older) (snap_state newer) clamped_t of
                    None \<Rightarrow> None
                  | Some interpolated \<Rightarrow>
                      (case apply_blend_if_needed interpolated now s of
                         None \<Rightarrow> None
                       | Some (result, s') \<Rightarrow>
                           Some (Some result, s'\<lparr>last_returned_state := Some result\<rparr>)))
        | _ \<Rightarrow> Some (handle_extrapolation now' s))"

section \<open>Script layer: states used in the examples, and the replay of one queued entry\<close>

definition player_with_crowns :: "int \<Rightarrow> CR4Player" where
  "player_with_crowns n =
     \<lparr>w3mGlobalSyncInProgress = False, w3mPendingFacts = [], w3mTimeSmoothingActive = False,
      w3mOriginalTimeMultiplier = Finite 0, w3mSmoothingStartTime = Finite 0,
      w3mTargetTimeOffset = Finite 0, inv = Some ((\<lambda>_. 0)(Crowns := n))\<rparr>"

definition game_at :: "int \<Rightarrow> int \<Rightarrow> game" where
  \<comment> \<open>a game whose clock shows \<open>seconds\<close> and whose player carries \<open>n\<close> crowns\<close>
  "game_at seconds n =
     \<lparr>thePlayer = Some (player_with_crowns n),
      GameSeconds = seconds, TimeMultiplier = Finite 1, facts_calls = []\<rparr>"

definition syncing :: "game \<Rightarrow> game" where
  \<comment> \<open>\<^verbatim>\<open>thePlayer.w3mGlobalSyncInProgress = true\<close>, as \<^verbatim>\<open>W3mReconcileWorldState\<close> sets it\<close>
  "syncing g = g\<lparr>thePlayer := map_option (\<lambda>p. p\<lparr>w3mGlobalSyncInProgress := True\<rparr>) (thePlayer g)\<rparr>"

lemmas fixture_defs = game_at_def player_with_crowns_def syncing_def

definition smoothing_started :: game where
  \<comment> \<open>the game at 1000 seconds after a reconciliation with the host at 1006 has started
      smoothing at engine time 10\<close>
  "smoothing_started =
     (game_at 1000 0)
       \<lparr>thePlayer := Some ((player_with_crowns 0)\<lparr>w3mTimeSmoothingActive := True,
                                         w3mOriginalTimeMultiplier := Finite 1,
                                         w3mSmoothingStartTime := Finite 10,
                                         w3mTargetTimeOffset := Finite 6\<rparr>),
         TimeMultiplier := Finite 3\<rparr>"

text \<open>
  What the flush does with one queued entry, stated on its own: an entry whose
  \<open>validFor\<close> is strictly positive is added, any other is removed.
\<close>

definition replayed :: "W3mPendingFact \<Rightarrow> facts_call" where
  "replayed pf =
     (if validFor pf > 0 then FactsAdd (factName pf) (pf_value pf) (validFor pf)
      else FactsRemove (factName pf))"

section \<open>Packet listeners: a transport used in the examples\<close>

definition le_word :: "bytes \<Rightarrow> 'a::len word" where
  \<comment> \<open>little-endian bytes to a word\<close>
  "le_word bs = foldr (\<lambda>b acc. ucast b + acc * 256) bs 0"

definition example_transport :: "nat transport" where
  \<comment> \<open>master server 0, protocol 1, a tag of 4 bytes followed by a session id of 8 bytes\<close>
  "example_transport =
     \<lparr>get_master_server = 0, PROTOCOL = 1,
      read_uint32 = (\<lambda>d. if length d < 4 then None else Some (le_word (take 4 d))),
      read_handshake = (\<lambda>d. if length d < 12 then None
                            else Some \<lparr>hs_session_id = le_word (take 8 (drop 4 d)),
                                       hs_player_guid = 0, hs_protocol_version = 1,
                                       hs_player_name = ''Geralt'', hs_timestamp = 0\<rparr>),
      read_achievement = (\<lambda>d. None)\<rparr>"

definition handshake_bytes :: "8 word \<Rightarrow> bytes" where
  "handshake_bytes sid = [1, 0, 0, 0, sid, 0, 0, 0, 0, 0, 0, 0]"

section \<open>Interpolator: states used in the examples, and what the bound says\<close>

definition moving_at :: "real \<Rightarrow> real \<Rightarrow> player_state_packet" where
  \<comment> \<open>a state at \<open>x\<close> on the first axis, moving along it with velocity \<open>v\<close>\<close>
  "moving_at x v =
     zero_state\<lparr>position := \<lparr>vx = Finite x, vy = Finite 0, vz = Finite 0, vw = Finite 0\<rparr>,
                velocity := \<lparr>vx = Finite v, vy = Finite 0, vz = Finite 0, vw = Finite 0\<rparr>\<rparr>"

definition first_snapshot :: player_interpolator where
  "first_snapshot = add_snapshot 0 (moving_at 0 10) interpolator_init"

definition extrapolating :: player_interpolator where
  \<comment> \<open>the interpolator after a render call at 1100 ms, which extrapolates\<close>
  "extrapolating = snd (handle_extrapolation (milliseconds 1100) first_snapshot)"

definition after_packet_loss :: player_interpolator where
  \<comment> \<open>a second snapshot arrives at 1150.5 ms\<close>
  "after_packet_loss = add_snapshot 1150500000 (moving_at 1 0) extrapolating"

definition two_snapshots :: player_interpolator where
  \<comment> \<open>two snapshots, 1150.5 ms apart, and no render call in between\<close>
  "two_snapshots = add_snapshot 1150500000 (moving_at 1 0) first_snapshot"

definition tiny :: real where
  "tiny = 1 / 2 ^ 26"

definition nearly_there :: player_interpolator where
  \<comment> \<open>at rest at 1, then at rest at \<open>2 ^ -26\<close>; no render call in between\<close>
  "nearly_there =
     add_snapshot 1150500000 (moving_at tiny 0)
       (add_snapshot 0 (moving_at 1 0) interpolator_init)"

definition between :: "f32 \<Rightarrow> f32 \<Rightarrow> f32 \<Rightarrow> bool" where
  \<comment> \<open>\<open>r\<close> lies between \<open>a\<close> and \<open>b\<close>, inclusive, whichever is larger\<close>
  "between a r b = ((f_le a r \<and> f_le r b) \<or> (f_le b r \<and> f_le r a))"

definition position_between ::
  "player_state_packet \<Rightarrow> player_state_packet \<Rightarrow> player_state_packet \<Rightarrow> bool" where
  "position_between A r B =
     (between (vx (position A)) (vx (position r)) (vx (position B)) \<and>
      between (vy (position A)) (vy (position r)) (vy (position B)) \<and>
      between (vz (position A)) (vz (position r)) (vz (position B)) \<and>
      between (vw (position A)) (vw (position r)) (vw (position B)))"

definition reaches :: "f32 \<Rightarrow> f32 \<Rightarrow> bool" where
  \<comment> \<open>\<open>a\<close> and \<open>b\<close> are finite, and \<^verbatim>\<open>lerp(a, b, 1.0f)\<close> returns \<open>b\<close>\<close>
  "reaches a b =
     (case (a, b) of
        (Finite x, Finite y) \<Rightarrow> is_float x \<and> lerp a b (Finite 1) = b
      | _ \<Rightarrow> False)"

definition position_reaches :: "player_state_packet \<Rightarrow> player_state_packet \<Rightarrow> bool" where
  "position_reaches A B =
     (reaches (vx (position A)) (vx (position B)) \<and>
      reaches (vy (position A)) (vy (position B)) \<and>
      reaches (vz (position A)) (vz (position B)) \<and>
      reaches (vw (position A)) (vw (position B)))"

definition tame :: "f32 \<Rightarrow> bool" where
  \<comment> \<open>a finite angle of at most \<open>2 ^ 22\<close> degrees in magnitude\<close>
  "tame a = (case a of Finite x \<Rightarrow> \<bar>x\<bar> \<le> 2 ^ 22 | _ \<Rightarrow> False)"

definition angles_tame :: "player_state_packet \<Rightarrow> bool" where
  "angles_tame A = (tame (ex (angles A)) \<and> tame (ey (angles A)) \<and> tame (ez (angles A)))"

definition in_clock_range :: "int \<Rightarrow> bool" where
  \<comment> \<open>a tick count that fits the clock's 64-bit representation\<close>
  "in_clock_range t = (- (2 ^ 63) \<le> t \<and> t < 2 ^ 63)"

definition brackets :: "int \<Rightarrow> snapshot option \<times> snapshot option \<Rightarrow> bool" where
  \<comment> \<open>what the search loop keeps true of \<open>(older, newer)\<close>\<close>
  "brackets render_time acc =
     ((case fst acc of None \<Rightarrow> True | Some a \<Rightarrow> snap_valid a \<and> snap_timestamp a \<le> render_time) \<and>
      (case snd acc of None \<Rightarrow> True | Some b \<Rightarrow> snap_valid b \<and> render_time < snap_timestamp b))"

section \<open>Narrative synchronisation: states and clocks used in the examples\<close>

definition example_sort :: sorter where
  \<comment> \<open>one sort that \<^verbatim>\<open>std::sort\<close> may be: insertion sort on the timestamps\<close>
  "example_sort = sort_key snd"

definition example_hash :: "string \<Rightarrow> u32" where
  \<comment> \<open>a hash for the examples: it tells names of different lengths apart\<close>
  "example_hash name = of_nat (length name)"

definition held_in_loopback :: quest_sync where
  \<comment> \<open>loopback mode on; the lock taken at time 0 by player 7 for scene 3\<close>
  "held_in_loopback =
     acquire_global_story_lock (\<lambda>_. 0) 7 3 (quest_sync_init\<lparr>g_loopback_enabled := True\<rparr>)"

definition held_on_network :: quest_sync where
  "held_on_network = acquire_global_story_lock (\<lambda>_. 0) 7 3 quest_sync_init"

definition sixteen_seconds :: clock where
  "sixteen_seconds = (\<lambda>_. 16000000000)"

definition every_five_seconds :: "clock list" where
  \<comment> \<open>five heartbeats 5000 ms apart, the first one half a millisecond after time 0\<close>
  "every_five_seconds =
     [\<lambda>_. 500000, \<lambda>_. 5000500000, \<lambda>_. 10000500000, \<lambda>_. 15000500000, \<lambda>_. 20000500000]"

section \<open>Fact registry: sequences of atomic adds, and the inputs of the examples\<close>

fun atomic_add_all ::
  "(string \<Rightarrow> u32) \<Rightarrow> sorter \<Rightarrow> u64 \<Rightarrow> (string \<times> i32 \<times> u64) list \<Rightarrow> quest_sync \<Rightarrow> quest_sync" where
  \<comment> \<open>a sequence of \<^verbatim>\<open>W3mAtomicAddFact(name, value)\<close> calls, each with its clock reading\<close>
  "atomic_add_all H std_sort guid [] s = s"
| "atomic_add_all H std_sort guid ((name, v, now) # rs) s =
     atomic_add_all H std_sort guid rs (W3mAtomicAddFact H std_sort guid (\<lambda>_. now) name v s)"

definition applied_in_order ::
  "(string \<Rightarrow> u32) \<Rightarrow> (nat \<Rightarrow> sorter) \<Rightarrow> clock \<Rightarrow> quest_fact list \<Rightarrow> fact_cache \<Rightarrow> fact_cache" where
  \<comment> \<open>every entry of the queue registered exactly once, front to back: the entry at
      position \<open>k\<close> with the \<open>k\<close>-th clock reading\<close>
  "applied_in_order H srt clk fs c =
     foldl (\<lambda>c k. register_fact H (srt k) (clk k) (fact_name (fs ! k)) (fact_value (fs ! k))
                     (player_guid (fs ! k)) c)
       c [0..<length fs]"

definition queued :: "(string \<Rightarrow> u32) \<Rightarrow> u64 \<Rightarrow> string \<times> i32 \<times> u64 \<Rightarrow> quest_fact" where
  \<comment> \<open>the queue entry of one call\<close>
  "queued H guid r =
     (case r of (name, v, now) \<Rightarrow>
        \<lparr>fact_name = name, fact_value = v, fact_timestamp = now, player_guid = guid,
         fact_hash = H name\<rparr>)"

definition registered :: "(string \<Rightarrow> u32) \<Rightarrow> quest_fact \<Rightarrow> u64 \<Rightarrow> quest_fact" where
  \<comment> \<open>the cache entry that registering the queued fact \<open>f\<close> at time \<open>t\<close> stores\<close>
  "registered H f t =
     \<lparr>fact_name = fact_name f, fact_value = fact_value f, fact_timestamp = t,
      player_guid = player_guid f, fact_hash = H (fact_name f)\<rparr>"

definition name_of :: "nat \<Rightarrow> string" where
  \<comment> \<open>the \<open>i\<close>-th name of the examples: \<open>i + 1\<close> letters\<close>
  "name_of i = replicate (Suc i) CHR ''f''"

definition flood :: "nat \<Rightarrow> (string \<times> i32 \<times> u64) list" where
  \<comment> \<open>\<open>n\<close> atomic adds of \<open>n\<close> different facts\<close>
  "flood n = map (\<lambda>i. (name_of i, 1, 0)) [0..<n]"

definition tick :: clock where
  \<comment> \<open>a clock that advances by one at every reading\<close>
  "tick i = of_nat i"

definition flooded :: "nat \<Rightarrow> fact_cache" where
  \<comment> \<open>the registry after \<open>n\<close> facts were queued during a sync and flushed\<close>
  "flooded n =
     g_fact_manager (flush_pending_facts example_hash (\<lambda>_. example_sort) tick
       (atomic_add_all example_hash example_sort 7 (flood n) held_on_network))"

definition entry :: "nat \<Rightarrow> u32 \<times> quest_fact" where
  \<comment> \<open>the cache entry of the \<open>i\<close>-th fact of \<open>flood\<close>, registered at the \<open>i\<close>-th tick\<close>
  "entry i =
     (example_hash (name_of i),
      \<lparr>fact_name = name_of i, fact_value = 1, fact_timestamp = tick i, player_guid = 7,
       fact_hash = example_hash (name_of i)\<rparr>)"

definition three_adds :: "(string \<times> i32 \<times> u64) list" where
  \<comment> \<open>the fact \<open>a\<close> is added twice, with \<open>bb\<close> in between\<close>
  "three_adds = [(''a'', 1, 10), (''bb'', 2, 20), (''a'', 3, 30)]"

section \<open>Binary32 arithmetic: rounding is exact on floats, monotone and idempotent\<close>

lemma pow2_powr: "pow2 k = 2 powr (real_of_int k)"
  by (simp add: pow2_def powr_real_of_int inverse_eq_divide)

lemma pow2_pos [simp]: "0 < pow2 k"
  by (simp add: pow2_powr)

lemma pow2_nonzero [simp]: "pow2 k \<noteq> 0"
  using pow2_pos [of k] by linarith

lemma pow2_nonneg [simp]: "0 \<le> pow2 k"
  using pow2_pos [of k] by linarith

lemma pow2_add: "pow2 (a + b) = pow2 a * pow2 b"
  by (simp add: pow2_powr powr_add)

lemma pow2_mono: "a \<le> b \<Longrightarrow> pow2 a \<le> pow2 b"
  by (simp add: pow2_powr)

lemma pow2_less: "pow2 a < pow2 b \<longleftrightarrow> a < b"
  by (simp add: pow2_powr)

lemma pow2_le: "pow2 a \<le> pow2 b \<longleftrightarrow> a \<le> b"
  by (simp add: pow2_powr)

lemma pow2_nat: "0 \<le> k \<Longrightarrow> pow2 k = of_int (2 ^ nat k)"
  by (simp add: pow2_def)

lemma pow2_0 [simp]: "pow2 0 = 1"
  by (simp add: pow2_def)

lemma pow2_Suc: "pow2 (k + 1) = 2 * pow2 k"
proof -
  have "pow2 (1::int) = 2" by (simp add: pow2_def)
  then show ?thesis by (simp only: pow2_add)
qed

lemma binade_up_bounds: "1 \<le> x \<Longrightarrow> pow2 (binade_up x) \<le> x \<and> x < pow2 (binade_up x + 1)"
proof (induction x rule: binade_up.induct)
  case (1 x)
  show ?case
  proof (cases "2 \<le> x")
    case True
    then have ih: "pow2 (binade_up (x / 2)) \<le> x / 2 \<and> x / 2 < pow2 (binade_up (x / 2) + 1)"
      using "1.IH" by simp
    have eq: "binade_up x = binade_up (x / 2) + 1" using True by (subst binade_up.simps) simp
    have "pow2 (binade_up (x / 2) + 1) = 2 * pow2 (binade_up (x / 2))"
      "pow2 (binade_up (x / 2) + 1 + 1) = 2 * pow2 (binade_up (x / 2) + 1)"
      by (rule pow2_Suc)+
    then show ?thesis unfolding eq using ih by linarith
  next
    case False
    then have eq: "binade_up x = 0" by (subst binade_up.simps) simp
    show ?thesis unfolding eq using False "1.prems" by (simp add: pow2_def)
  qed
qed

lemma binade_down_bounds:
  "0 < x \<Longrightarrow> x < 1 \<Longrightarrow> pow2 (binade_down x) \<le> x \<and> x < pow2 (binade_down x + 1)"
proof (induction x rule: binade_down.induct)
  case (1 x)
  have eq: "binade_down x = binade_down (x * 2) - 1" using "1.prems" by (subst binade_down.simps) simp
  show ?case
  proof (cases "x * 2 < 1")
    case True
    then have ih: "pow2 (binade_down (x * 2)) \<le> x * 2 \<and> x * 2 < pow2 (binade_down (x * 2) + 1)"
      using "1.IH" "1.prems" by simp
    have "pow2 (binade_down (x * 2)) = 2 * pow2 (binade_down (x * 2) - 1)"
      "pow2 (binade_down (x * 2) + 1) = 2 * pow2 (binade_down (x * 2) - 1 + 1)"
      using pow2_Suc [of "binade_down (x * 2) - 1"] pow2_Suc [of "binade_down (x * 2)"] by simp_all
    then show ?thesis unfolding eq using ih by linarith
  next
    case False
    then have z: "binade_down (x * 2) = 0" by (subst binade_down.simps) simp
    show ?thesis unfolding eq z using False "1.prems" by (simp add: pow2_def)
  qed
qed

lemma binade_bounds: "0 < x \<Longrightarrow> pow2 (binade x) \<le> x \<and> x < pow2 (binade x + 1)"
  using binade_up_bounds [of x] binade_down_bounds [of x] by (cases "1 \<le> x") (simp_all add: binade_def)

lemma binade_unique: "0 < x \<Longrightarrow> pow2 e \<le> x \<Longrightarrow> x < pow2 (e + 1) \<Longrightarrow> binade x = e"
proof -
  assume pos: "0 < x" and lo: "pow2 e \<le> x" and hi: "x < pow2 (e + 1)"
  from binade_bounds [OF pos] have b: "pow2 (binade x) \<le> x" "x < pow2 (binade x + 1)" by simp_all
  from lo b(2) have "pow2 e < pow2 (binade x + 1)" by linarith
  then have 1: "e < binade x + 1" by (simp only: pow2_less)
  from b(1) hi have "pow2 (binade x) < pow2 (e + 1)" by linarith
  then have 2: "binade x < e + 1" by (simp only: pow2_less)
  from 1 2 show ?thesis by linarith
qed

lemma round_even_of_int [simp]: "round_even (of_int n) = n"
  by (simp add: round_even_def)

lemma round_even_lower: "of_int \<lfloor>r\<rfloor> \<le> (of_int (round_even r) :: real)"
  by (simp add: round_even_def Let_def)

lemma round_even_mono: "r \<le> s \<Longrightarrow> round_even r \<le> round_even s"
proof -
  assume le: "r \<le> s"
  have fl: "\<lfloor>r\<rfloor> \<le> \<lfloor>s\<rfloor>" using le by (rule floor_mono)
  show ?thesis
  proof (cases "\<lfloor>r\<rfloor> = \<lfloor>s\<rfloor>")
    case True
    then have "r - of_int \<lfloor>r\<rfloor> \<le> s - of_int \<lfloor>s\<rfloor>" using le by simp
    then show ?thesis using True by (auto simp add: round_even_def Let_def)
  next
    case False
    with fl have "\<lfloor>r\<rfloor> + 1 \<le> \<lfloor>s\<rfloor>" by simp
    moreover have "round_even r \<le> \<lfloor>r\<rfloor> + 1" by (simp add: round_even_def Let_def)
    moreover have "\<lfloor>s\<rfloor> \<le> round_even s" by (simp add: round_even_def Let_def)
    ultimately show ?thesis by linarith
  qed
qed

lemma nearest_exact:
  assumes pos: "0 < x" and rep: "x = of_int m * pow2 j" and sub: "- 149 \<le> j"
    and bits: "x < pow2 (j + 24)"
  shows "nearest x = x"
proof -
  define e where "e = max (binade x) (- 126)"
  from binade_bounds [OF pos] have "pow2 (binade x) \<le> x" by simp
  with bits have "pow2 (binade x) < pow2 (j + 24)" by linarith
  then have "binade x < j + 24" by (simp only: pow2_less)
  with sub have je: "0 \<le> j - (e - 23)" unfolding e_def by simp
  have "pow2 j = pow2 ((j - (e - 23)) + (e - 23))" by simp
  also have "\<dots> = pow2 (j - (e - 23)) * pow2 (e - 23)" by (rule pow2_add)
  finally have "x / pow2 (e - 23) = of_int m * pow2 (j - (e - 23))"
    unfolding rep using pow2_pos [of "e - 23"] by (simp add: field_simps)
  also have "\<dots> = of_int (m * 2 ^ nat (j - (e - 23)))" using je by (simp add: pow2_nat)
  finally have int: "x / pow2 (e - 23) = of_int (m * 2 ^ nat (j - (e - 23)))" .
  have "nearest x = pow2 (e - 23) * of_int (round_even (x / pow2 (e - 23)))"
    by (simp add: nearest_def e_def Let_def)
  also have "\<dots> = pow2 (e - 23) * (x / pow2 (e - 23))"
    unfolding int round_even_of_int ..
  also have "\<dots> = x" by simp
  finally show ?thesis .
qed


lemma round_even_0 [simp]: "round_even 0 = 0"
  by (simp add: round_even_def)

lemma abs_pow2 [simp]: "\<bar>pow2 j\<bar> = pow2 j"
  using pow2_pos [of j] by linarith

lemma nearest_0 [simp]: "nearest 0 = 0"
  by (simp add: nearest_def)

lemma round32_0 [simp]: "round32 0 = Finite 0"
  by (simp add: round32_def)

lemma round32_minus: "round32 (- x) = f_neg (round32 x)"
  by (cases "x = 0") (auto simp add: round32_def f_neg_def Let_def)

lemma round32_exact:
  assumes rep: "x = of_int m * pow2 j" and sub: "- 149 \<le> j"
    and bits: "\<bar>x\<bar> < pow2 (j + 24)" and fin: "\<bar>x\<bar> < 2 ^ 128"
  shows "round32 x = Finite x"
proof (cases "x = 0")
  case True
  then show ?thesis by simp
next
  case False
  then have pos: "0 < \<bar>x\<bar>" by simp
  have "\<bar>x\<bar> = of_int \<bar>m\<bar> * pow2 j" unfolding rep by (simp add: abs_mult)
  from nearest_exact [OF pos this sub bits] have "nearest \<bar>x\<bar> = \<bar>x\<bar>" .
  then show ?thesis using fin by (simp add: round32_def Let_def)
qed

lemma round32_of_int: "\<bar>n\<bar> < 2 ^ 24 \<Longrightarrow> round32 (of_int n) = Finite (of_int n)"
proof -
  assume b: "\<bar>n\<bar> < 2 ^ 24"
  then have r: "\<bar>real_of_int n\<bar> < 2 ^ 24"
    by (metis of_int_abs of_int_less_numeral_power_cancel_iff)
  have 1: "real_of_int n = of_int n * pow2 0" by simp
  have 2: "\<bar>real_of_int n\<bar> < pow2 (0 + 24)" using r by (simp add: pow2_def)
  have 3: "\<bar>real_of_int n\<bar> < 2 ^ 128" using r by simp
  show ?thesis by (rule round32_exact [OF 1 _ 2 3]) simp
qed


lemma round_even_nonneg: "0 \<le> r \<Longrightarrow> 0 \<le> round_even r"
  using round_even_mono [of 0 r] by simp

lemma nearest_nonneg: "0 \<le> x \<Longrightarrow> 0 \<le> nearest x"
proof -
  assume "0 \<le> x"
  then have "0 \<le> x / pow2 (max (binade x) (- 126) - 23)"
    by (rule divide_nonneg_pos) (rule pow2_pos)
  then have "0 \<le> round_even (x / pow2 (max (binade x) (- 126) - 23))" by (rule round_even_nonneg)
  then show ?thesis by (simp add: nearest_def Let_def zero_le_mult_iff)
qed

lemma binade_mono: "0 < x \<Longrightarrow> x \<le> y \<Longrightarrow> binade x \<le> binade y"
proof -
  assume pos: "0 < x" and le: "x \<le> y"
  from binade_bounds [OF pos] have "pow2 (binade x) \<le> x" by simp
  moreover from binade_bounds [of y] pos le have "y < pow2 (binade y + 1)" by simp
  ultimately have "pow2 (binade x) < pow2 (binade y + 1)" using le by linarith
  then have "binade x < binade y + 1" by (simp only: pow2_less)
  then show ?thesis by simp
qed

lemma pow2_split: "pow2 (e + 1) = pow2 (e - 23) * 2 ^ 24" "pow2 e = pow2 (e - 23) * 2 ^ 23"
proof -
  have a: "e + 1 = (e - 23) + 24" and b: "e = (e - 23) + 23" by linarith+
  have c: "pow2 24 = 2 ^ 24" "pow2 23 = 2 ^ 23" by (simp_all add: pow2_def)
  have "pow2 (e + 1) = pow2 ((e - 23) + 24)" using a by (rule arg_cong)
  also have "\<dots> = pow2 (e - 23) * pow2 24" by (rule pow2_add)
  finally show "pow2 (e + 1) = pow2 (e - 23) * 2 ^ 24" unfolding c .
  have "pow2 e = pow2 ((e - 23) + 23)" using b by (rule arg_cong)
  also have "\<dots> = pow2 (e - 23) * pow2 23" by (rule pow2_add)
  finally show "pow2 e = pow2 (e - 23) * 2 ^ 23" unfolding c .
qed

lemma nearest_upper:
  assumes pos: "0 < x"
  shows "nearest x \<le> pow2 (max (binade x) (- 126) + 1)"
proof -
  define e where "e = max (binade x) (- 126)"
  define q where "q = pow2 (e - 23)"
  have q: "0 < q" by (simp add: q_def)
  from binade_bounds [OF pos] have "x < pow2 (binade x + 1)" by simp
  also have "\<dots> \<le> pow2 (e + 1)" by (rule pow2_mono) (simp add: e_def)
  also have "\<dots> = q * 2 ^ 24" unfolding q_def by (rule pow2_split)
  finally have "x / q \<le> of_int (2 ^ 24)" using q by (simp add: field_simps)
  then have "round_even (x / q) \<le> round_even (of_int (2 ^ 24))" by (rule round_even_mono)
  then have "round_even (x / q) \<le> 2 ^ 24" by (simp only: round_even_of_int)
  then have "real_of_int (round_even (x / q)) \<le> 2 ^ 24"
    by (metis of_int_le_numeral_power_cancel_iff)
  then have "q * of_int (round_even (x / q)) \<le> q * 2 ^ 24" using q by simp
  also have "\<dots> = pow2 (e + 1)" unfolding q_def by (rule pow2_split [symmetric])
  finally show ?thesis by (simp add: nearest_def Let_def e_def q_def)
qed

lemma nearest_lower:
  assumes pos: "0 < x" and normal: "- 126 \<le> binade x"
  shows "pow2 (binade x) \<le> nearest x"
proof -
  define e where "e = binade x"
  define q where "q = pow2 (e - 23)"
  have q: "0 < q" by (simp add: q_def)
  have m: "max (binade x) (- 126) = e" using normal by (simp add: e_def)
  from binade_bounds [OF pos] have "pow2 e \<le> x" by (simp add: e_def)
  then have "q * 2 ^ 23 \<le> x" unfolding q_def by (simp only: pow2_split [symmetric])
  then have "of_int (2 ^ 23) \<le> x / q" using q by (simp add: field_simps)
  then have "round_even (of_int (2 ^ 23)) \<le> round_even (x / q)" by (rule round_even_mono)
  then have "2 ^ 23 \<le> round_even (x / q)" by (simp only: round_even_of_int)
  then have "2 ^ 23 \<le> real_of_int (round_even (x / q))"
    by (metis numeral_power_le_of_int_cancel_iff)
  then have "q * 2 ^ 23 \<le> q * of_int (round_even (x / q))" using q by simp
  then have "pow2 e \<le> q * of_int (round_even (x / q))"
    unfolding q_def by (simp only: pow2_split [symmetric])
  then show ?thesis unfolding nearest_def Let_def m by (simp add: e_def q_def)
qed

lemma nearest_mono:
  assumes nn: "0 \<le> x" and le: "x \<le> y"
  shows "nearest x \<le> nearest y"
proof (cases "x = 0")
  case True
  then show ?thesis using nearest_nonneg [of y] nn le by simp
next
  case False
  with nn have px: "0 < x" by simp
  with le have py: "0 < y" by simp
  define ex where "ex = max (binade x) (- 126)"
  define ey where "ey = max (binade y) (- 126)"
  have exy: "ex \<le> ey" using binade_mono [OF px le] by (simp add: ex_def ey_def)
  show ?thesis
  proof (cases "ex = ey")
    case True
    have "x / pow2 (ey - 23) \<le> y / pow2 (ey - 23)" using le by (simp add: field_simps)
    then have "round_even (x / pow2 (ey - 23)) \<le> round_even (y / pow2 (ey - 23))"
      by (rule round_even_mono)
    then have "pow2 (ey - 23) * of_int (round_even (x / pow2 (ey - 23)))
               \<le> pow2 (ey - 23) * of_int (round_even (y / pow2 (ey - 23)))" by simp
    then show ?thesis using True by (simp add: nearest_def Let_def ex_def ey_def)
  next
    case False
    with exy have lt: "ex + 1 \<le> ey" by simp
    then have normal: "- 126 \<le> binade y" "ey = binade y" by (simp_all add: ex_def ey_def)
    have "nearest x \<le> pow2 (ex + 1)" unfolding ex_def by (rule nearest_upper [OF px])
    also have "\<dots> \<le> pow2 ey" using lt by (rule pow2_mono)
    also have "\<dots> \<le> nearest y" unfolding normal(2) by (rule nearest_lower [OF py normal(1)])
    finally show ?thesis .
  qed
qed

lemma round32_mono:
  assumes le: "x \<le> y" and u: "round32 x = Finite u" and v: "round32 y = Finite v"
  shows "u \<le> v"
proof -
  have ux: "u = (if x < 0 then - nearest \<bar>x\<bar> else nearest \<bar>x\<bar>)"
    using u by (simp add: round32_def Let_def split: if_splits)
  have vy: "v = (if y < 0 then - nearest \<bar>y\<bar> else nearest \<bar>y\<bar>)"
    using v by (simp add: round32_def Let_def split: if_splits)
  show ?thesis
  proof (cases "x < 0")
    case xneg: True
    show ?thesis
    proof (cases "y < 0")
      case True
      then have "nearest \<bar>y\<bar> \<le> nearest \<bar>x\<bar>" using le by (intro nearest_mono) simp_all
      then show ?thesis using xneg True by (simp add: ux vy)
    next
      case False
      then show ?thesis using xneg nearest_nonneg [of "\<bar>x\<bar>"] nearest_nonneg [of "\<bar>y\<bar>"]
        by (simp add: ux vy)
    qed
  next
    case False
    then have "nearest \<bar>x\<bar> \<le> nearest \<bar>y\<bar>" using le by (intro nearest_mono) simp_all
    then show ?thesis using False le by (simp add: ux vy)
  qed
qed

lemma nearest_idem:
  assumes nn: "0 \<le> x" and fin: "nearest x < 2 ^ 128"
  shows "nearest (nearest x) = nearest x"
proof (cases "nearest x = 0")
  case True
  then show ?thesis by simp
next
  case False
  then have x0: "x \<noteq> 0" by auto
  with nn have px: "0 < x" by simp
  define e where "e = max (binade x) (- 126)"
  define n where "n = round_even (x / pow2 (e - 23))"
  have u: "nearest x = of_int n * pow2 (e - 23)"
    by (simp add: nearest_def Let_def e_def n_def)
  have pu: "0 < nearest x" using nearest_nonneg [OF nn] False by simp
  have up: "nearest x \<le> pow2 (e + 1)" unfolding e_def by (rule nearest_upper [OF px])
  have sub: "- 149 \<le> e + 1" "- 149 \<le> e - 23" by (simp_all add: e_def)
  show ?thesis
  proof (cases "nearest x = pow2 (e + 1)")
    case True
    have r: "nearest x = of_int 1 * pow2 (e + 1)" using True by simp
    have "pow2 (e + 1) < pow2 (e + 1 + 24)" by (simp add: pow2_less)
    then have b: "nearest x < pow2 (e + 1 + 24)" using True by simp
    from pu r sub(1) b show ?thesis by (rule nearest_exact)
  next
    case False
    with up have "nearest x < pow2 (e + 1)" by simp
    moreover have "e + 1 = e - 23 + 24" by linarith
    ultimately have b: "nearest x < pow2 (e - 23 + 24)" by simp
    from pu u sub(2) b show ?thesis by (rule nearest_exact)
  qed
qed

lemma round32_idem: "round32 x = Finite u \<Longrightarrow> round32 u = Finite u"
proof -
  assume u: "round32 x = Finite u"
  then have fin: "nearest \<bar>x\<bar> < 2 ^ 128"
    and ux: "u = (if x < 0 then - nearest \<bar>x\<bar> else nearest \<bar>x\<bar>)"
    by (simp_all add: round32_def Let_def split: if_splits)
  have nn: "0 \<le> nearest \<bar>x\<bar>" by (rule nearest_nonneg) simp
  have idem: "nearest (nearest \<bar>x\<bar>) = nearest \<bar>x\<bar>" by (rule nearest_idem [OF _ fin]) simp
  show ?thesis
  proof (cases "nearest \<bar>x\<bar> = 0")
    case True
    show ?thesis unfolding ux True by simp
  next
    case False
    with nn have pos: "0 < nearest \<bar>x\<bar>" by simp
    then have p: "round32 (nearest \<bar>x\<bar>) = Finite (nearest \<bar>x\<bar>)"
      using idem fin by (simp add: round32_def Let_def)
    show ?thesis
    proof (cases "x < 0")
      case True
      then show ?thesis using p by (simp add: ux round32_minus f_neg_def)
    next
      case False
      then show ?thesis using p by (simp add: ux)
    qed
  qed
qed


lemma round32_finite_le:
  assumes le: "\<bar>x\<bar> \<le> \<bar>y\<bar>" and v: "round32 y = Finite v"
  shows "\<exists>u. round32 x = Finite u"
proof -
  from v have "nearest \<bar>y\<bar> < 2 ^ 128" by (simp add: round32_def Let_def split: if_splits)
  moreover have "nearest \<bar>x\<bar> \<le> nearest \<bar>y\<bar>" using le by (intro nearest_mono) simp_all
  ultimately show ?thesis by (simp add: round32_def Let_def)
qed

lemma is_float_minus: "is_float (- x) = is_float x"
  by (auto simp add: is_float_def round32_minus f_neg_def split: f32.splits)

lemma is_float_nearest: "is_float d \<Longrightarrow> 0 < d \<Longrightarrow> nearest d = d"
  by (simp add: is_float_def round32_def Let_def split: if_splits)

lemma round32_numeral [simp]:
  "(numeral k :: int) < 2 ^ 24 \<Longrightarrow> round32 (numeral k) = Finite (numeral k)"
  using round32_of_int [of "numeral k"] by simp

lemma round32_neg_numeral [simp]:
  "(numeral k :: int) < 2 ^ 24 \<Longrightarrow> round32 (- numeral k) = Finite (- numeral k)"
  using round32_of_int [of "- numeral k"] by simp

lemma round32_1 [simp]: "round32 1 = Finite 1"
  using round32_of_int [of 1] by simp

lemma round32_neg_1 [simp]: "round32 (- 1) = Finite (- 1)"
  using round32_of_int [of "- 1"] by simp

lemma round32_between:
  assumes lo: "x \<le> z" and hi: "z \<le> y" and u: "round32 x = Finite u" and v: "round32 y = Finite v"
  shows "\<exists>w. round32 z = Finite w \<and> u \<le> w \<and> w \<le> v"
proof -
  have "\<bar>z\<bar> \<le> \<bar>x\<bar> \<or> \<bar>z\<bar> \<le> \<bar>y\<bar>" using lo hi by linarith
  then obtain w where w: "round32 z = Finite w"
    using round32_finite_le [of z x u] round32_finite_le [of z y v] u v by blast
  from round32_mono [OF lo u w] round32_mono [OF hi w v] w show ?thesis by simp
qed

lemma nearest_at:
  "0 < x \<Longrightarrow> pow2 e \<le> x \<Longrightarrow> x < pow2 (e + 1) \<Longrightarrow>
   nearest x = pow2 (max e (- 126) - 23) * of_int (round_even (x / pow2 (max e (- 126) - 23)))"
  by (simp add: binade_unique nearest_def Let_def)

lemma f_add_finite: "f_add (Finite x) (Finite y) = round32 (x + y)"
  by (simp add: f_add_def)

lemma f_sub_finite: "f_sub (Finite x) (Finite y) = round32 (x - y)"
  by (simp add: f_sub_def f_add_def f_neg_def)

lemma f_mul_finite: "f_mul (Finite x) (Finite y) = round32 (x * y)"
  by (simp add: f_mul_def)

lemma f_div_finite: "y \<noteq> 0 \<Longrightarrow> f_div (Finite x) (Finite y) = round32 (x / y)"
  by (simp add: f_div_def)

section \<open>Story lock: acquisition\<close>

text \<open>
  C7. Acquiring the story lock is idempotent and the first acquirer wins: on a lock that
  is already held, \<open>acquire_lock\<close> with any owner, scene and clock reading returns the
  lock as it was (owner, scene, timestamp and flag); on an idle lock it sets the flag and
  records the given owner, scene and the current clock reading.
\<close>

theorem acquire_lock_first_wins:
  "(is_locked l \<longrightarrow> acquire_lock now g sc l = l) \<and>
   (\<not> is_locked l \<longrightarrow>
      is_locked (acquire_lock now g sc l) \<and>
      m_initiator_guid (acquire_lock now g sc l) = g \<and>
      m_scene_id (acquire_lock now g sc l) = sc \<and>
      m_lock_timestamp (acquire_lock now g sc l) = now)"
  by (simp add: acquire_lock_def is_locked_def)

theorem acquire_lock_first_wins_witness:
  "acquire_lock 200 9 4 (acquire_lock 100 7 3 story_lock_init) = acquire_lock 100 7 3 story_lock_init \<and>
   is_locked (acquire_lock 100 7 3 story_lock_init) \<and>
   m_initiator_guid (acquire_lock 100 7 3 story_lock_init) = 7 \<and>
   m_scene_id (acquire_lock 100 7 3 story_lock_init) = 3 \<and>
   m_lock_timestamp (acquire_lock 100 7 3 story_lock_init) = 100"
proof -
  have idle: "\<not> is_locked story_lock_init"
    by (simp add: is_locked_def story_lock_init_def)
  have first: "is_locked (acquire_lock 100 7 3 story_lock_init) \<and>
      m_initiator_guid (acquire_lock 100 7 3 story_lock_init) = 7 \<and>
      m_scene_id (acquire_lock 100 7 3 story_lock_init) = 3 \<and>
      m_lock_timestamp (acquire_lock 100 7 3 story_lock_init) = 100"
    using acquire_lock_first_wins [of story_lock_init 100 7 3] idle by blast
  then have held: "is_locked (acquire_lock 100 7 3 story_lock_init)" by simp
  have "acquire_lock 200 9 4 (acquire_lock 100 7 3 story_lock_init) = acquire_lock 100 7 3 story_lock_init"
    using acquire_lock_first_wins [of "acquire_lock 100 7 3 story_lock_init" 200 9 4] held by blast
  with first show ?thesis by simp
qed

section \<open>Interpolator: shortest-path angle wrap\<close>

text \<open>
  Subtracting 360 from a float between 180 and \<open>2 ^ 27\<close> is exact, and so is adding 360
  to one between \<open>- 2 ^ 27\<close> and \<open>-180\<close>. So on a delta of magnitude below \<open>2 ^ 27\<close>
  each loop of \<^verbatim>\<open>lerp_angle\<close> ends, having moved the delta by whole turns. Far beyond
  that range the first loop never ends: an infinite delta stays infinite, and
  \<open>2 ^ 40 - 360\<close> rounds back to \<open>2 ^ 40\<close>.
\<close>

lemma sub360_exact:
  assumes fl: "is_float d" and big: "180 < d" and small: "d < pow2 27"
  shows "round32 (d - 360) = Finite (d - 360)"
proof -
  have pos: "0 < d" using big by simp
  define e where "e = binade d"
  from binade_bounds [OF pos] have lo: "pow2 e \<le> d" and hi: "d < pow2 (e + 1)"
    by (simp_all add: e_def)
  from lo small have "pow2 e < pow2 27" by linarith
  then have e26: "e \<le> 26" by (simp add: pow2_less)
  have "pow2 7 \<le> d" using big by (simp add: pow2_def)
  with hi have "pow2 7 < pow2 (e + 1)" by linarith
  then have e7: "7 \<le> e" by (simp add: pow2_less)
  define j where "j = e - 23"
  have m: "max (binade d) (- 126) - 23 = j" using e7 by (simp add: e_def j_def)
  define n where "n = round_even (d / pow2 j)"
  from is_float_nearest [OF fl pos] have dn: "d = pow2 j * of_int n"
    unfolding nearest_def Let_def m n_def by simp
  have j3: "0 \<le> 3 - j" using e26 by (simp add: j_def)
  have "pow2 3 = pow2 ((3 - j) + j)" by simp
  also have "\<dots> = pow2 (3 - j) * pow2 j" by (rule pow2_add)
  also have "\<dots> = of_int (2 ^ nat (3 - j)) * pow2 j" using j3 by (simp only: pow2_nat)
  finally have eight: "8 = of_int (2 ^ nat (3 - j)) * pow2 j" by (simp add: pow2_def)
  have "(360::real) = 45 * 8" by simp
  also have "\<dots> = 45 * (of_int (2 ^ nat (3 - j)) * pow2 j)" using eight by simp
  finally have c: "(360::real) = of_int (45 * 2 ^ nat (3 - j)) * pow2 j" by simp
  have rep: "d - 360 = of_int (n - 45 * 2 ^ nat (3 - j)) * pow2 j"
    by (subst dn, subst c) (simp add: algebra_simps)
  have "e + 1 = j + 24" by (simp add: j_def)
  with hi have hi': "d < pow2 (j + 24)" by simp
  have bits: "\<bar>d - 360\<bar> < pow2 (j + 24)" using hi' big by linarith
  have "pow2 27 = 2 ^ 27" by (simp add: pow2_def)
  with small big have fin: "\<bar>d - 360\<bar> < 2 ^ 128" by simp
  have sub: "- 149 \<le> j" using e7 by (simp add: j_def)
  from rep sub bits fin show ?thesis by (rule round32_exact)
qed

lemma add360_exact:
  assumes fl: "is_float d" and big: "d < - 180" and small: "- pow2 27 < d"
  shows "round32 (d + 360) = Finite (d + 360)"
proof -
  have "is_float (- d)" using fl by (simp only: is_float_minus)
  then have "round32 (- d - 360) = Finite (- d - 360)" using big small by (intro sub360_exact) simp_all
  moreover have "d + 360 = - (- d - 360)" by simp
  ultimately show ?thesis by (simp only: round32_minus) (simp add: f_neg_def)
qed

lemma wrap_down_returns:
  assumes fl: "is_float d" and small: "d < pow2 27"
  shows "\<exists>k::nat. wrap_down (Finite d) = Some (Finite (d - 360 * of_nat k))
           \<and> is_float (d - 360 * of_nat k) \<and> d - 360 * of_nat k \<le> 180
           \<and> (0 < k \<longrightarrow> - 180 < d - 360 * of_nat k)"
  using fl small
proof (induction "nat \<lceil>d / 360\<rceil>" arbitrary: d rule: less_induct)
  case less
  show ?case
  proof (cases "180 < d")
    case False
    then have "wrap_down (Finite d) = Some (Finite d)"
      by (subst wrap_down.simps) (simp add: f_less_def)
    then show ?thesis using False less.prems by (intro exI [of _ 0]) simp
  next
    case True
    have ex: "round32 (d - 360) = Finite (d - 360)"
      using less.prems True by (intro sub360_exact)
    then have fl': "is_float (d - 360)" by (simp add: is_float_def)
    have eq: "(d - 360) / 360 = d / 360 - 1" by (simp add: field_simps)
    have step: "\<lceil>(d - 360) / 360\<rceil> = \<lceil>d / 360\<rceil> - 1" unfolding eq by (rule ceiling_diff_one)
    have "0 < d / 360" using True by simp
    then have "0 < \<lceil>d / 360\<rceil>" by simp
    with step have dec: "nat \<lceil>(d - 360) / 360\<rceil> < nat \<lceil>d / 360\<rceil>" by linarith
    have "d - 360 < pow2 27" using less.prems by simp
    from less.hyps [OF dec fl' this] obtain k :: nat where
      k: "wrap_down (Finite (d - 360)) = Some (Finite (d - 360 - 360 * of_nat k))"
         "is_float (d - 360 - 360 * of_nat k)" "d - 360 - 360 * of_nat k \<le> 180"
         "0 < k \<longrightarrow> - 180 < d - 360 - 360 * of_nat k"
      by blast
    have unf: "wrap_down (Finite d) = wrap_down (Finite (d - 360))"
      using True ex by (subst wrap_down.simps) (simp add: f_less_def f_sub_def f_add_def f_neg_def)
    have idx: "d - 360 * of_nat (Suc k) = d - 360 - 360 * of_nat k" by (simp add: algebra_simps)
    have low: "- 180 < d - 360 - 360 * of_nat k" using k(4) True by (cases "k = 0") simp_all
    show ?thesis
      using k(1,2,3) low unfolding unf by (intro exI [of _ "Suc k"]) (simp only: idx, simp)
  qed
qed


lemma wrap_up_returns:
  assumes fl: "is_float d" and small: "- pow2 27 < d"
  shows "\<exists>k::nat. wrap_up (Finite d) = Some (Finite (d + 360 * of_nat k))
           \<and> is_float (d + 360 * of_nat k) \<and> - 180 \<le> d + 360 * of_nat k
           \<and> (0 < k \<longrightarrow> d + 360 * of_nat k < 180)"
  using fl small
proof (induction "nat \<lceil>- d / 360\<rceil>" arbitrary: d rule: less_induct)
  case less
  show ?case
  proof (cases "d < - 180")
    case False
    then have "wrap_up (Finite d) = Some (Finite d)"
      by (subst wrap_up.simps) (simp add: f_less_def)
    then show ?thesis using False less.prems by (intro exI [of _ 0]) simp
  next
    case True
    have ex: "round32 (d + 360) = Finite (d + 360)"
      using less.prems True by (intro add360_exact)
    then have fl': "is_float (d + 360)" by (simp add: is_float_def)
    have eq: "- (d + 360) / 360 = - d / 360 - 1" by (simp add: field_simps)
    have step: "\<lceil>- (d + 360) / 360\<rceil> = \<lceil>- d / 360\<rceil> - 1" unfolding eq by (rule ceiling_diff_one)
    have "0 < - d / 360" using True by simp
    then have "0 < \<lceil>- d / 360\<rceil>" by simp
    with step have dec: "nat \<lceil>- (d + 360) / 360\<rceil> < nat \<lceil>- d / 360\<rceil>" by linarith
    have "- pow2 27 < d + 360" using less.prems by simp
    from less.hyps [OF dec fl' this] obtain k :: nat where
      k: "wrap_up (Finite (d + 360)) = Some (Finite (d + 360 + 360 * of_nat k))"
         "is_float (d + 360 + 360 * of_nat k)" "- 180 \<le> d + 360 + 360 * of_nat k"
         "0 < k \<longrightarrow> d + 360 + 360 * of_nat k < 180"
      by blast
    have unf: "wrap_up (Finite d) = wrap_up (Finite (d + 360))"
      using True ex by (subst wrap_up.simps) (simp add: f_less_def f_add_def)
    have idx: "d + 360 * of_nat (Suc k) = d + 360 + 360 * of_nat k" by (simp add: algebra_simps)
    have up: "d + 360 + 360 * of_nat k < 180" using k(4) True by (cases "k = 0") simp_all
    show ?thesis
      using k(1,2,3) up unfolding unf by (intro exI [of _ "Suc k"]) (simp only: idx, simp)
  qed
qed

lemma wrap_down_infinite: "wrap_down PInf = None"
proof -
  have "wrap_down x = Some y \<Longrightarrow> x \<noteq> PInf" for x y
  proof (rule wrap_down.raw_induct [where P = "\<lambda>x y. x \<noteq> PInf"])
    fix f d r
    assume ih: "\<And>d r. f d = Some r \<Longrightarrow> d \<noteq> PInf"
      and body: "(if f_less (Finite 180) d then f (f_sub d (Finite 360)) else Some d) = Some r"
    show "d \<noteq> PInf"
    proof
      assume "d = PInf"
      with body have "f PInf = Some r" by (simp add: f_less_def f_sub_def f_add_def f_neg_def)
      with ih show False by blast
    qed
  qed
  then show ?thesis by (cases "wrap_down PInf") auto
qed


lemma huge_minus_one_turn: "round32 (2 ^ 40 - 360) = Finite (2 ^ 40)"
proof -
  have "nearest (2 ^ 40 - 360) = 2 ^ 40"
    by (subst nearest_at [where e = 39]) (simp_all add: pow2_def round_even_def)
  then show ?thesis by (simp add: round32_def)
qed

lemma wrap_down_huge: "wrap_down (Finite (2 ^ 40)) = None"
proof -
  have "wrap_down x = Some y \<Longrightarrow> x \<noteq> Finite (2 ^ 40)" for x y
  proof (rule wrap_down.raw_induct [where P = "\<lambda>x y. x \<noteq> Finite (2 ^ 40)"])
    fix f d r
    assume ih: "\<And>d r. f d = Some r \<Longrightarrow> d \<noteq> Finite (2 ^ 40)"
      and body: "(if f_less (Finite 180) d then f (f_sub d (Finite 360)) else Some d) = Some r"
    show "d \<noteq> Finite (2 ^ 40)"
    proof
      assume d: "d = Finite (2 ^ 40)"
      have "f_sub (Finite (2 ^ 40)) (Finite 360) = Finite (2 ^ 40)"
        unfolding f_sub_finite by (rule huge_minus_one_turn)
      with body have "f (Finite (2 ^ 40)) = Some r" unfolding d by (simp add: f_less_def)
      with ih show False by blast
    qed
  qed
  then show ?thesis by (cases "wrap_down (Finite (2 ^ 40))") auto
qed

lemma round32_2_26: "round32 (2 ^ 26) = Finite (2 ^ 26)" "round32 (- (2 ^ 26)) = Finite (- (2 ^ 26))"
proof -
  have "round32 (2 ^ 26) = Finite (2 ^ 26)"
    by (rule round32_exact [where m = 1 and j = 26]) (simp_all add: pow2_def)
  then show "round32 (2 ^ 26) = Finite (2 ^ 26)" "round32 (- (2 ^ 26)) = Finite (- (2 ^ 26))"
    by (simp_all only: round32_minus) (simp add: f_neg_def)
qed

lemma normalized_returns:
  assumes fl: "is_float d" and small: "\<bar>d\<bar> < pow2 27"
  shows "\<exists>n. \<exists>k::int. normalized (Finite d) = Some (Finite n) \<and> n = d + 360 * of_int k
           \<and> - 180 \<le> n \<and> n \<le> 180"
proof -
  from small have up: "d < pow2 27" and low: "- pow2 27 < d" by linarith+
  from wrap_down_returns [OF fl up] obtain i :: nat where
    i: "wrap_down (Finite d) = Some (Finite (d - 360 * of_nat i))"
       "is_float (d - 360 * of_nat i)" "d - 360 * of_nat i \<le> 180"
       "0 < i \<longrightarrow> - 180 < d - 360 * of_nat i"
    by blast
  have "pow2 27 = 2 ^ 27" by (simp add: pow2_def)
  then have low': "- pow2 27 < d - 360 * of_nat i" using low i(4) by (cases "i = 0") simp_all
  from wrap_up_returns [OF i(2) low'] obtain j :: nat where
    j: "wrap_up (Finite (d - 360 * of_nat i)) = Some (Finite (d - 360 * of_nat i + 360 * of_nat j))"
       "- 180 \<le> d - 360 * of_nat i + 360 * of_nat j"
       "0 < j \<longrightarrow> d - 360 * of_nat i + 360 * of_nat j < 180"
    by blast
  have top: "d - 360 * of_nat i + 360 * of_nat j \<le> 180" using i(3) j(3) by (cases "j = 0") simp_all
  have eq: "d - 360 * of_nat i + 360 * of_nat j = d + 360 * of_int (int j - int i)" by simp
  have "normalized (Finite d) = Some (Finite (d + 360 * of_int (int j - int i)))"
    unfolding normalized_def i(1) using j(1) by (simp only: eq option.case)
  with j(2) top eq show ?thesis by metis
qed

text \<open>
  C9. Angular interpolation takes the shortest path. Whenever the two angles are at most
  \<open>2 ^ 26\<close> degrees apart, \<^verbatim>\<open>lerp_angle\<close> returns, and the delta it interpolates along is
  the float difference \<open>b - a\<close> moved by whole turns into \<open>[-180, 180]\<close>. From 359 to 1
  degree the delta is +2 (not -358), and at fraction 0.5 the result is 360, which is 0
  modulo 360, and not 180; from 1 to 359 degrees the delta is -2 (not +358) and the
  result at 0.5 is 0.
\<close>

theorem lerp_angle_shortest_path:
  "(\<bar>b - a\<bar> \<le> 2 ^ 26 \<longrightarrow>
      (\<exists>d n. \<exists>k::int.
          f_sub (Finite b) (Finite a) = Finite d \<and> normalized (Finite d) = Some (Finite n) \<and>
          n = d + 360 * of_int k \<and> - 180 \<le> n \<and> n \<le> 180 \<and>
          lerp_angle (Finite a) (Finite b) t = Some (f_add (Finite a) (f_mul (Finite n) t)))) \<and>
   normalized (f_sub (Finite 1) (Finite 359)) = Some (Finite 2) \<and>
   lerp_angle (Finite 359) (Finite 1) (Finite (1 / 2)) = Some (Finite 360) \<and>
   lerp_angle (Finite 359) (Finite 1) (Finite (1 / 2)) \<noteq> Some (Finite 180) \<and>
   normalized (f_sub (Finite 359) (Finite 1)) = Some (Finite (- 2)) \<and>
   lerp_angle (Finite 1) (Finite 359) (Finite (1 / 2)) = Some (Finite 0)"
proof -
  have general: "\<exists>d n. \<exists>k::int.
          f_sub (Finite b) (Finite a) = Finite d \<and> normalized (Finite d) = Some (Finite n) \<and>
          n = d + 360 * of_int k \<and> - 180 \<le> n \<and> n \<le> 180 \<and>
          lerp_angle (Finite a) (Finite b) t = Some (f_add (Finite a) (f_mul (Finite n) t))"
    if close: "\<bar>b - a\<bar> \<le> 2 ^ 26"
  proof -
    from close have "- (2 ^ 26) \<le> b - a" "b - a \<le> 2 ^ 26" by linarith+
    from round32_between [OF this round32_2_26(2) round32_2_26(1)] obtain d where
      d: "round32 (b - a) = Finite d" "- (2 ^ 26) \<le> d" "d \<le> 2 ^ 26" by blast
    have fl: "is_float d" unfolding is_float_def using d(1) by (rule round32_idem)
    have "\<bar>d\<bar> < pow2 27" using d(2,3) by (simp add: pow2_def)
    from normalized_returns [OF fl this] obtain n and k :: int where
      n: "normalized (Finite d) = Some (Finite n)" "n = d + 360 * of_int k" "- 180 \<le> n" "n \<le> 180"
      by blast
    have s: "f_sub (Finite b) (Finite a) = Finite d" unfolding f_sub_finite by (rule d(1))
    have "lerp_angle (Finite a) (Finite b) t = Some (f_add (Finite a) (f_mul (Finite n) t))"
      unfolding lerp_angle_def s n(1) by simp
    with s n show ?thesis by blast
  qed
  have down: "normalized (f_sub (Finite 1) (Finite 359)) = Some (Finite 2)"
    by (simp add: normalized_def f_sub_finite f_add_finite f_less_def wrap_down.simps wrap_up.simps)
  have up: "normalized (f_sub (Finite 359) (Finite 1)) = Some (Finite (- 2))"
    by (simp add: normalized_def f_sub_finite f_add_finite f_less_def wrap_down.simps wrap_up.simps)
  have a: "lerp_angle (Finite 359) (Finite 1) (Finite (1 / 2)) = Some (Finite 360)"
    unfolding lerp_angle_def down by (simp add: f_mul_finite f_add_finite)
  have b: "lerp_angle (Finite 1) (Finite 359) (Finite (1 / 2)) = Some (Finite 0)"
    unfolding lerp_angle_def up by (simp add: f_mul_finite f_add_finite)
  from general down up a b show ?thesis by simp
qed

theorem lerp_angle_shortest_path_witness:
  "\<bar>(1::real) - 359\<bar> \<le> 2 ^ 26 \<and>
   lerp_angle (Finite 359) (Finite 1) (Finite (1 / 2)) = Some (Finite 360)"
proof -
  have close: "\<bar>(1::real) - 359\<bar> \<le> 2 ^ 26" by simp
  from lerp_angle_shortest_path [of 1 359 "Finite (1 / 2)"] close
  obtain d n and k :: int where
    r: "f_sub (Finite 1) (Finite 359) = Finite d" "n = d + 360 * of_int k" "- 180 \<le> n" "n \<le> 180"
       "lerp_angle (Finite 359) (Finite 1) (Finite (1 / 2)) =
          Some (f_add (Finite 359) (f_mul (Finite n) (Finite (1 / 2))))"
    by blast
  have d: "d = - 358" using r(1) by (simp add: f_sub_finite)
  have "real_of_int 0 < real_of_int k" using r(2,3) unfolding d by simp
  then have k1: "1 \<le> k" by (simp only: of_int_less_iff)
  have "real_of_int k < real_of_int 2" using r(2,4) unfolding d by simp
  then have k2: "k < 2" by (simp only: of_int_less_iff)
  from k1 k2 have "k = 1" by simp
  then have n: "n = 2" using r(2) d by simp
  show ?thesis using close r(5) unfolding n by (simp add: f_mul_finite f_add_finite)
qed

section \<open>Script layer: economy reconciliation\<close>

text \<open>
  With 100 crowns locally and 95 reported by the peer the difference is 5, within 10
  units, and \<^verbatim>\<open>W3mReconcileCrowns\<close> still removes 5 crowns: its guard is \<^verbatim>\<open>diff != 0\<close>.
\<close>

theorem reconcile_crowns_below_threshold_counterexample:
  "\<bar>95 - W3mGetTotalCrowns (game_at 1000 100)\<bar> \<le> 10 \<and>
   W3mGetTotalCrowns (game_at 1000 100) = 100 \<and>
   W3mGetTotalCrowns (W3mReconcileCrowns 95 7 (game_at 1000 100)) = 95"
  by (simp add: W3mReconcileCrowns_def W3mGetTotalCrowns_def fixture_defs
      GetItemQuantityByName_def RemoveItemByName_def AddAnItem_def)

text \<open>
  C4, as the code has it. For a player with an inventory, economy reconciliation makes
  the local total equal the remote total \<open>R\<close> whatever the size of the difference: it
  adds \<open>R - L\<close> crowns when that is positive, removes \<open>L - R\<close> when it is negative, and
  leaves the game untouched only when \<open>R = L\<close>. There is no 10-unit threshold
  (local 100, remote 95 gives 95; local 100, remote 80 gives 80).
\<close>

theorem reconcile_crowns_any_difference:
  "thePlayer g = Some p \<and> inv p = Some items \<longrightarrow>
     W3mGetTotalCrowns (W3mReconcileCrowns R guid g) = R \<and>
     (R = W3mGetTotalCrowns g \<longrightarrow> W3mReconcileCrowns R guid g = g) \<and>
     (R > W3mGetTotalCrowns g \<longrightarrow>
        W3mReconcileCrowns R guid g =
          g\<lparr>thePlayer := Some (p\<lparr>inv := Some (AddAnItem Crowns (R - W3mGetTotalCrowns g) items)\<rparr>)\<rparr>) \<and>
     (R < W3mGetTotalCrowns g \<longrightarrow>
        W3mReconcileCrowns R guid g =
          g\<lparr>thePlayer := Some (p\<lparr>inv := Some (RemoveItemByName Crowns (W3mGetTotalCrowns g - R) items)\<rparr>)\<rparr>)"
  by (simp add: W3mReconcileCrowns_def W3mGetTotalCrowns_def Let_def
      GetItemQuantityByName_def RemoveItemByName_def AddAnItem_def)

theorem reconcile_crowns_any_difference_witness:
  "W3mGetTotalCrowns (W3mReconcileCrowns 95 7 (game_at 1000 100)) = 95 \<and>
   W3mGetTotalCrowns (W3mReconcileCrowns 80 7 (game_at 1000 100)) = 80 \<and>
   W3mReconcileCrowns 100 7 (game_at 1000 100) = game_at 1000 100"
proof -
  let ?items = "(\<lambda>_. 0)(Crowns := 100) :: string \<Rightarrow> int"
  let ?p = "player_with_crowns 100"
  have p: "thePlayer (game_at 1000 100) = Some ?p \<and> inv ?p = Some ?items"
    by (simp add: fixture_defs)
  have l: "W3mGetTotalCrowns (game_at 1000 100) = 100"
    by (simp add: W3mGetTotalCrowns_def fixture_defs GetItemQuantityByName_def)
  have a: "W3mGetTotalCrowns (W3mReconcileCrowns 95 7 (game_at 1000 100)) = 95"
    using reconcile_crowns_any_difference [of "game_at 1000 100" ?p ?items 95 7] p by blast
  have b: "W3mGetTotalCrowns (W3mReconcileCrowns 80 7 (game_at 1000 100)) = 80"
    using reconcile_crowns_any_difference [of "game_at 1000 100" ?p ?items 80 7] p by blast
  have c: "W3mReconcileCrowns 100 7 (game_at 1000 100) = game_at 1000 100"
    using reconcile_crowns_any_difference [of "game_at 1000 100" ?p ?items 100 7] p l by metis
  from a b c show ?thesis by blast
qed

section \<open>Script layer: world-clock reconciliation\<close>

text \<open>
  The clock difference is computed in binary32. Both conversions and the subtraction are
  exact while the two clocks are below \<open>2 ^ 24\<close> seconds; above, a clock is rounded to
  an even number of seconds before the subtraction.
\<close>

lemma timeDiff_exact:
  assumes h: "0 \<le> host" "host < 2 ^ 24" and c: "0 \<le> GameSeconds g" "GameSeconds g < 2 ^ 24"
  shows "timeDiff host g = Finite (of_int (host - GameSeconds g))"
proof -
  have a: "f_of_int host = Finite (of_int host)"
    unfolding f_of_int_def using h by (intro round32_of_int) simp
  have b: "f_of_int (GameSeconds g) = Finite (of_int (GameSeconds g))"
    unfolding f_of_int_def using c by (intro round32_of_int) simp
  have "\<bar>host - GameSeconds g\<bar> < 2 ^ 24" using h c by simp
  then have "round32 (of_int (host - GameSeconds g)) = Finite (of_int (host - GameSeconds g))"
    by (rule round32_of_int)
  then show ?thesis unfolding timeDiff_def a b f_sub_finite by simp
qed

lemma sixteen_million_rounds: "f_of_int 16777219 = Finite 16777220"
proof -
  have "nearest 16777219 = 16777220"
    by (subst nearest_at [where e = 24]) (simp_all add: pow2_def round_even_def)
  then show ?thesis by (simp add: f_of_int_def round32_def)
qed

lemma f_of_int_small [simp]:
  "f_of_int 1000 = Finite 1000" "f_of_int 1002 = Finite 1002" "f_of_int 1003 = Finite 1003"
  "f_of_int 1006 = Finite 1006" "f_of_int 1015 = Finite 1015" "f_of_int 1045 = Finite 1045"
  by (simp_all add: f_of_int_def)

text \<open>
  A host clock 45 seconds ahead is more than 10 seconds away, so the clock snaps to it.
  And with the local clock at 16777219 seconds and the host's at 16777230, eleven seconds
  ahead, the script computes a difference of 10 and starts smoothing instead of snapping.
\<close>

theorem clock_diff_45_counterexample:
  "timeDiff 1045 (game_at 1000 0) = Finite 45 \<and>
   W3mSmoothTimeReconciliation (Finite 0) (Finite 0) 1045 (game_at 1000 0) =
     Inr ((game_at 1000 0)\<lparr>GameSeconds := 1045\<rparr>) \<and>
   W3mSmoothTimeReconciliation (Finite 0) (Finite 0) 1045 (game_at 1000 0) \<noteq> Inr (game_at 1000 0) \<and>
   timeDiff 16777230 (game_at 16777219 0) = Finite 10 \<and>
   W3mSmoothTimeReconciliation (Finite 0) (Finite 0) 16777230 (game_at 16777219 0) \<noteq>
     Inr ((game_at 16777219 0)\<lparr>GameSeconds := 16777230\<rparr>)"
proof -
  have d: "timeDiff 1045 (game_at 1000 0) = Finite 45"
    by (simp add: timeDiff_def fixture_defs f_sub_finite)
  have r: "W3mSmoothTimeReconciliation (Finite 0) (Finite 0) 1045 (game_at 1000 0) =
     Inr ((game_at 1000 0)\<lparr>GameSeconds := 1045\<rparr>)"
    unfolding W3mSmoothTimeReconciliation_def d
    by (simp add: AbsF_def f_abs_def f_le_def f_less_def SetGameTime_def)
  have n: "Inr ((game_at 1000 0)\<lparr>GameSeconds := 1045\<rparr>) \<noteq> (Inr (game_at 1000 0) :: script_error + game)"
    by (simp add: fixture_defs)
  have "f_of_int 16777230 = Finite 16777230"
    using round32_exact [of 16777230 8388615 1] by (simp add: f_of_int_def pow2_def)
  then have e: "timeDiff 16777230 (game_at 16777219 0) = Finite 10"
    by (simp add: timeDiff_def fixture_defs sixteen_million_rounds f_sub_finite)
  have s: "W3mSmoothTimeReconciliation (Finite 0) (Finite 0) 16777230 (game_at 16777219 0) \<noteq>
     Inr ((game_at 16777219 0)\<lparr>GameSeconds := 16777230\<rparr>)"
    unfolding W3mSmoothTimeReconciliation_def e
    by (simp add: AbsF_def f_abs_def f_le_def f_less_def f_sub_finite smoothingDuration_def
        SetTimeMultiplier_def fixture_defs Let_def)
  from d r n e s show ?thesis by simp
qed

text \<open>
  C5, as the code has it. World-clock reconciliation ignores a difference whose absolute
  value is below 5 seconds, and snaps the local clock to the host's at once, touching
  neither the time multiplier nor the smoothing state, whenever the absolute difference
  exceeds 10 seconds: a difference of 15 seconds snaps, and so does one of 45 seconds.
  The difference is the one the script computes in binary32; it is the exact difference
  of the two clocks whenever both are below \<open>2 ^ 24\<close> seconds.
\<close>

theorem clock_ignore_below_5_snap_above_10:
  "(f_less (AbsF (timeDiff host g)) (Finite 5) \<longrightarrow>
      W3mSmoothTimeReconciliation t0 t1 host g = Inr g) \<and>
   (f_less (Finite 10) (AbsF (timeDiff host g)) \<longrightarrow>
      W3mSmoothTimeReconciliation t0 t1 host g = Inr (g\<lparr>GameSeconds := host\<rparr>)) \<and>
   (0 \<le> host \<and> host < 2 ^ 24 \<and> 0 \<le> GameSeconds g \<and> GameSeconds g < 2 ^ 24 \<longrightarrow>
      timeDiff host g = Finite (of_int (host - GameSeconds g)) \<and>
      (\<bar>host - GameSeconds g\<bar> < 5 \<longrightarrow> W3mSmoothTimeReconciliation t0 t1 host g = Inr g) \<and>
      (10 < \<bar>host - GameSeconds g\<bar> \<longrightarrow>
         W3mSmoothTimeReconciliation t0 t1 host g = Inr (g\<lparr>GameSeconds := host\<rparr>)))"
proof -
  have low: "W3mSmoothTimeReconciliation t0 t1 host g = Inr g"
    if "f_less (AbsF (timeDiff host g)) (Finite 5)"
    using that unfolding W3mSmoothTimeReconciliation_def Let_def
    by (cases "timeDiff host g") (simp_all add: AbsF_def f_abs_def f_le_def f_less_def)
  have high: "W3mSmoothTimeReconciliation t0 t1 host g = Inr (g\<lparr>GameSeconds := host\<rparr>)"
    if "f_less (Finite 10) (AbsF (timeDiff host g))"
    using that unfolding W3mSmoothTimeReconciliation_def Let_def
    by (cases "timeDiff host g")
       (simp_all add: AbsF_def f_abs_def f_le_def f_less_def SetGameTime_def)
  have exact: "timeDiff host g = Finite (of_int (host - GameSeconds g)) \<and>
      (\<bar>host - GameSeconds g\<bar> < 5 \<longrightarrow> W3mSmoothTimeReconciliation t0 t1 host g = Inr g) \<and>
      (10 < \<bar>host - GameSeconds g\<bar> \<longrightarrow>
         W3mSmoothTimeReconciliation t0 t1 host g = Inr (g\<lparr>GameSeconds := host\<rparr>))"
    if r: "0 \<le> host" "host < 2 ^ 24" "0 \<le> GameSeconds g" "GameSeconds g < 2 ^ 24"
  proof -
    have d: "timeDiff host g = Finite (of_int (host - GameSeconds g))"
      using r by (rule timeDiff_exact)
    have a: "f_less (AbsF (timeDiff host g)) (Finite 5)" if "\<bar>host - GameSeconds g\<bar> < 5"
      using that unfolding d by (simp add: AbsF_def f_abs_def f_less_def)
    have b: "f_less (Finite 10) (AbsF (timeDiff host g))" if "10 < \<bar>host - GameSeconds g\<bar>"
      using that unfolding d by (simp add: AbsF_def f_abs_def f_less_def)
    from d a b low high show ?thesis by blast
  qed
  from low high exact show ?thesis by blast
qed

theorem clock_ignore_below_5_snap_above_10_witness:
  "W3mSmoothTimeReconciliation (Finite 0) (Finite 0) 1003 (game_at 1000 0) = Inr (game_at 1000 0) \<and>
   W3mSmoothTimeReconciliation (Finite 0) (Finite 0) 1045 (game_at 1000 0) =
     Inr ((game_at 1000 0)\<lparr>GameSeconds := 1045\<rparr>) \<and>
   W3mSmoothTimeReconciliation (Finite 0) (Finite 0) 1015 (game_at 1000 0) =
     Inr ((game_at 1000 0)\<lparr>GameSeconds := 1015\<rparr>)"
proof -
  have c: "GameSeconds (game_at 1000 0) = 1000" by (simp add: fixture_defs)
  have "f_less (AbsF (timeDiff 1003 (game_at 1000 0))) (Finite 5)"
    by (simp add: timeDiff_def fixture_defs f_sub_finite AbsF_def f_abs_def f_less_def)
  then have a: "W3mSmoothTimeReconciliation (Finite 0) (Finite 0) 1003 (game_at 1000 0) = Inr (game_at 1000 0)"
    using clock_ignore_below_5_snap_above_10 [of 1003 "game_at 1000 0" "Finite 0" "Finite 0"]
    by blast
  have r: "(0::int) \<le> 1045 \<and> (1045::int) < 2 ^ 24 \<and> 0 \<le> GameSeconds (game_at 1000 0) \<and>
      GameSeconds (game_at 1000 0) < 2 ^ 24" "10 < \<bar>1045 - GameSeconds (game_at 1000 0)\<bar>"
    unfolding c by simp_all
  have b: "W3mSmoothTimeReconciliation (Finite 0) (Finite 0) 1045 (game_at 1000 0) =
     Inr ((game_at 1000 0)\<lparr>GameSeconds := 1045\<rparr>)"
    using clock_ignore_below_5_snap_above_10 [of 1045 "game_at 1000 0" "Finite 0" "Finite 0"] r
    by blast
  have r': "(0::int) \<le> 1015 \<and> (1015::int) < 2 ^ 24 \<and> 0 \<le> GameSeconds (game_at 1000 0) \<and>
      GameSeconds (game_at 1000 0) < 2 ^ 24" "10 < \<bar>1015 - GameSeconds (game_at 1000 0)\<bar>"
    unfolding c by simp_all
  have d: "W3mSmoothTimeReconciliation (Finite 0) (Finite 0) 1015 (game_at 1000 0) =
     Inr ((game_at 1000 0)\<lparr>GameSeconds := 1015\<rparr>)"
    using clock_ignore_below_5_snap_above_10 [of 1015 "game_at 1000 0" "Finite 0" "Finite 0"] r'
    by blast
  from a b d show ?thesis by blast
qed

text \<open>
  A smoothing that is started and then left alone. The local clock shows 1000 seconds,
  the time multiplier is 1, and the host reports 1006: the first reconciliation (engine
  time 10) starts smoothing and sets the multiplier to 3. A second reconciliation two
  seconds later sets the same multiplier 3: nothing ramps. The third one comes ten
  seconds after the start, long after the 3-second window, with the host at 1002, a
  difference of 2 seconds: it is ignored, so the multiplier stays 3, smoothing stays
  active and the clock is not set to the host's.
\<close>

lemma timeDiff_6: "timeDiff 1006 (game_at 1000 0) = Finite 6" "timeDiff 1006 smoothing_started = Finite 6"
  by (simp_all add: timeDiff_def fixture_defs smoothing_started_def f_sub_finite)

theorem smoothing_left_active_counterexample:
  "W3mSmoothTimeReconciliation (Finite 10) (Finite 10) 1006 (game_at 1000 0) = Inr smoothing_started \<and>
   W3mSmoothTimeReconciliation (Finite 12) (Finite 12) 1006 smoothing_started = Inr smoothing_started \<and>
   TimeMultiplier smoothing_started = Finite 3 \<and>
   W3mSmoothTimeReconciliation (Finite 20) (Finite 20) 1002 smoothing_started = Inr smoothing_started \<and>
   TimeMultiplier smoothing_started \<noteq> Finite 1 \<and>
   GameSeconds smoothing_started \<noteq> 1002 \<and>
   map_option w3mTimeSmoothingActive (thePlayer smoothing_started) = Some True"
proof -
  have a: "W3mSmoothTimeReconciliation (Finite 10) (Finite 10) 1006 (game_at 1000 0) = Inr smoothing_started"
    unfolding W3mSmoothTimeReconciliation_def timeDiff_6
    by (simp add: AbsF_def f_abs_def f_le_def f_less_def f_sub_finite f_add_finite f_div_finite
        smoothingDuration_def SetTimeMultiplier_def fixture_defs smoothing_started_def)
  have b: "W3mSmoothTimeReconciliation (Finite 12) (Finite 12) 1006 smoothing_started = Inr smoothing_started"
    unfolding W3mSmoothTimeReconciliation_def timeDiff_6
    by (simp add: AbsF_def f_abs_def f_le_def f_less_def f_sub_finite f_add_finite f_div_finite
        smoothingDuration_def SetTimeMultiplier_def fixture_defs smoothing_started_def)
  have d: "timeDiff 1002 smoothing_started = Finite 2"
    by (simp add: timeDiff_def fixture_defs smoothing_started_def f_sub_finite)
  have c: "W3mSmoothTimeReconciliation (Finite 20) (Finite 20) 1002 smoothing_started = Inr smoothing_started"
    unfolding W3mSmoothTimeReconciliation_def d
    by (simp add: AbsF_def f_abs_def f_le_def f_less_def)
  have e: "TimeMultiplier smoothing_started = Finite 3" "GameSeconds smoothing_started \<noteq> 1002"
    "map_option w3mTimeSmoothingActive (thePlayer smoothing_started) = Some True"
    by (simp_all add: smoothing_started_def fixture_defs)
  from a b c e show ?thesis by simp
qed

text \<open>
  C6, as the code has it. For a reconciliation with \<open>5 \<le> |diff| \<le> 10\<close> (the difference
  as the script computes it) and a player present: when smoothing is not active it is
  started (the flag is set, the current multiplier is recorded as the original, the start
  time and the offset are stored); then, while the engine time is less than 3 seconds
  past the recorded start, the multiplier is set to the constant
  \<open>original + offset / 3\<close>, the rate that absorbs the offset over the 3-second window,
  and it does not ramp; when such a reconciliation finds 3 seconds or more gone, the
  original multiplier is restored, smoothing ends and the clock is set to the host's
  value. What becomes of an active smoothing when later reconciliations fall outside the
  band is not part of the statement.
\<close>

theorem smoothing_band:
  "f_le (Finite 5) (AbsF (timeDiff host g)) \<and> f_le (AbsF (timeDiff host g)) (Finite 10) \<and>
   thePlayer g = Some p \<longrightarrow>
     (\<not> w3mTimeSmoothingActive p \<and> f_less (f_sub t1 t0) (Finite 3) \<longrightarrow>
        W3mSmoothTimeReconciliation t0 t1 host g =
          Inr (g\<lparr>thePlayer := Some (p\<lparr>w3mTimeSmoothingActive := True,
                                       w3mOriginalTimeMultiplier := TimeMultiplier g,
                                       w3mSmoothingStartTime := t0,
                                       w3mTargetTimeOffset := timeDiff host g\<rparr>),
                 TimeMultiplier := f_add (TimeMultiplier g) (f_div (timeDiff host g) (Finite 3))\<rparr>)) \<and>
     (\<not> w3mTimeSmoothingActive p \<and> \<not> f_less (f_sub t1 t0) (Finite 3) \<longrightarrow>
        W3mSmoothTimeReconciliation t0 t1 host g =
          Inr (g\<lparr>thePlayer := Some (p\<lparr>w3mTimeSmoothingActive := False,
                                       w3mOriginalTimeMultiplier := TimeMultiplier g,
                                       w3mSmoothingStartTime := t0,
                                       w3mTargetTimeOffset := timeDiff host g\<rparr>),
                 TimeMultiplier := TimeMultiplier g,
                 GameSeconds := host\<rparr>)) \<and>
     (w3mTimeSmoothingActive p \<and> f_less (f_sub t1 (w3mSmoothingStartTime p)) (Finite 3) \<longrightarrow>
        W3mSmoothTimeReconciliation t0 t1 host g =
          Inr (g\<lparr>TimeMultiplier :=
                   f_add (w3mOriginalTimeMultiplier p) (f_div (w3mTargetTimeOffset p) (Finite 3))\<rparr>)) \<and>
     (w3mTimeSmoothingActive p \<and> \<not> f_less (f_sub t1 (w3mSmoothingStartTime p)) (Finite 3) \<longrightarrow>
        W3mSmoothTimeReconciliation t0 t1 host g =
          Inr (g\<lparr>thePlayer := Some (p\<lparr>w3mTimeSmoothingActive := False\<rparr>),
                 TimeMultiplier := w3mOriginalTimeMultiplier p,
                 GameSeconds := host\<rparr>))"
  by (auto simp add: W3mSmoothTimeReconciliation_def SetGameTime_def SetTimeMultiplier_def
      smoothingDuration_def Let_def)

theorem smoothing_band_witness:
  "W3mSmoothTimeReconciliation (Finite 10) (Finite 10) 1006 (game_at 1000 0) = Inr smoothing_started \<and>
   W3mSmoothTimeReconciliation (Finite 12) (Finite 12) 1006 smoothing_started = Inr smoothing_started \<and>
   W3mSmoothTimeReconciliation (Finite 13) (Finite 13) 1006 smoothing_started =
     Inr ((game_at 1000 0)
            \<lparr>thePlayer := Some ((player_with_crowns 0)\<lparr>w3mTimeSmoothingActive := False,
                                              w3mOriginalTimeMultiplier := Finite 1,
                                              w3mSmoothingStartTime := Finite 10,
                                              w3mTargetTimeOffset := Finite 6\<rparr>),
              TimeMultiplier := Finite 1, GameSeconds := 1006\<rparr>)"
proof -
  let ?g0 = "game_at 1000 0"
  let ?p0 = "player_with_crowns 0"
  let ?p1 = "?p0\<lparr>w3mTimeSmoothingActive := True, w3mOriginalTimeMultiplier := Finite 1,
                 w3mSmoothingStartTime := Finite 10, w3mTargetTimeOffset := Finite 6\<rparr>"
  let ?g1 = smoothing_started
  have band: "f_le (Finite 5) (AbsF (Finite 6)) \<and> f_le (AbsF (Finite 6)) (Finite 10)"
    by (simp add: AbsF_def f_abs_def f_le_def f_less_def)
  have h0: "f_le (Finite 5) (AbsF (timeDiff 1006 ?g0)) \<and> f_le (AbsF (timeDiff 1006 ?g0)) (Finite 10) \<and>
      thePlayer ?g0 = Some ?p0"
    unfolding timeDiff_6 using band by (simp add: fixture_defs)
  have h1: "f_le (Finite 5) (AbsF (timeDiff 1006 ?g1)) \<and> f_le (AbsF (timeDiff 1006 ?g1)) (Finite 10) \<and>
      thePlayer ?g1 = Some ?p1"
    unfolding timeDiff_6 using band by (simp add: smoothing_started_def)
  have s0: "\<not> w3mTimeSmoothingActive ?p0 \<and> f_less (f_sub (Finite 10) (Finite 10)) (Finite 3)"
    by (simp add: fixture_defs f_sub_finite f_less_def)
  have s1: "w3mTimeSmoothingActive ?p1 \<and> f_less (f_sub (Finite 12) (w3mSmoothingStartTime ?p1)) (Finite 3)"
    by (simp add: f_sub_finite f_less_def)
  have s2: "w3mTimeSmoothingActive ?p1 \<and> \<not> f_less (f_sub (Finite 13) (w3mSmoothingStartTime ?p1)) (Finite 3)"
    by (simp add: f_sub_finite f_less_def)
  have a: "W3mSmoothTimeReconciliation (Finite 10) (Finite 10) 1006 ?g0 =
       Inr (?g0\<lparr>thePlayer := Some (?p0\<lparr>w3mTimeSmoothingActive := True,
                                       w3mOriginalTimeMultiplier := TimeMultiplier ?g0,
                                       w3mSmoothingStartTime := Finite 10,
                                       w3mTargetTimeOffset := timeDiff 1006 ?g0\<rparr>),
                 TimeMultiplier := f_add (TimeMultiplier ?g0) (f_div (timeDiff 1006 ?g0) (Finite 3))\<rparr>)"
    using smoothing_band [of 1006 ?g0 ?p0 "Finite 10" "Finite 10"] h0 s0 by blast
  have b: "W3mSmoothTimeReconciliation (Finite 12) (Finite 12) 1006 ?g1 =
       Inr (?g1\<lparr>TimeMultiplier :=
                   f_add (w3mOriginalTimeMultiplier ?p1) (f_div (w3mTargetTimeOffset ?p1) (Finite 3))\<rparr>)"
    using smoothing_band [of 1006 ?g1 ?p1 "Finite 12" "Finite 12"] h1 s1 by blast
  have c: "W3mSmoothTimeReconciliation (Finite 13) (Finite 13) 1006 ?g1 =
       Inr (?g1\<lparr>thePlayer := Some (?p1\<lparr>w3mTimeSmoothingActive := False\<rparr>),
                 TimeMultiplier := w3mOriginalTimeMultiplier ?p1,
                 GameSeconds := 1006\<rparr>)"
    using smoothing_band [of 1006 ?g1 ?p1 "Finite 13" "Finite 13"] h1 s2 by blast
  have rate: "f_add (Finite 1) (f_div (Finite 6) (Finite 3)) = Finite 3"
    by (simp add: f_div_finite f_add_finite)
  from a have a': "W3mSmoothTimeReconciliation (Finite 10) (Finite 10) 1006 ?g0 = Inr ?g1"
    unfolding timeDiff_6 by (simp add: fixture_defs smoothing_started_def rate)
  from b have b': "W3mSmoothTimeReconciliation (Finite 12) (Finite 12) 1006 ?g1 = Inr ?g1"
    by (simp add: smoothing_started_def rate)
  from c a' b' show ?thesis by (simp add: smoothing_started_def fixture_defs)
qed

section \<open>Script layer: atomic facts\<close>

lemma replay_pending_calls:
  "facts_calls (replay_pending pfs g) = facts_calls g @ map replayed pfs"
  by (induction pfs arbitrary: g)
     (simp_all add: replayed_def W3mNativeFactsAdd_def W3mNativeFactsRemove_def)

lemma replay_pending_frame:
  "thePlayer (replay_pending pfs g) = thePlayer g \<and>
   GameSeconds (replay_pending pfs g) = GameSeconds g \<and>
   TimeMultiplier (replay_pending pfs g) = TimeMultiplier g"
  by (induction pfs arbitrary: g)
     (simp_all add: W3mNativeFactsAdd_def W3mNativeFactsRemove_def)

text \<open>
  C10. With a player present: an atomic add made while a global sync is in progress
  appends an entry that carries the given \<open>validFor\<close>; the flush succeeds and issues,
  in queue order, \<^verbatim>\<open>FactsAdd\<close> for every entry with \<open>validFor > 0\<close> and \<^verbatim>\<open>FactsRemove\<close>
  for every other entry. So an atomic add with \<open>validFor = 0\<close> calls
  \<^verbatim>\<open>FactsAdd\<close> when no sync is in progress, and ends as a \<^verbatim>\<open>FactsRemove\<close> of the
  same name (and no add) when it was queued and flushed.
\<close>

theorem atomic_add_validFor_by_lock_state:
  "thePlayer g = Some p \<longrightarrow>
     (w3mGlobalSyncInProgress p \<longrightarrow>
        script_W3mAtomicAddFact t n v vf g =
          g\<lparr>thePlayer := Some (p\<lparr>w3mPendingFacts := w3mPendingFacts p @
                 [\<lparr>factName = n, pf_value = v, validFor = vf, pf_timestamp = t\<rparr>]\<rparr>)\<rparr>) \<and>
     (\<exists>g'. W3mFlushPendingFacts g = Inr g' \<and>
           facts_calls g' = facts_calls g @ map replayed (w3mPendingFacts p) \<and>
           (\<forall>pf \<in> set (w3mPendingFacts p).
              validFor pf \<le> 0 \<longrightarrow> replayed pf = FactsRemove (factName pf))) \<and>
     (\<not> w3mGlobalSyncInProgress p \<longrightarrow>
        facts_calls (script_W3mAtomicAddFact t n v 0 g) = facts_calls g @ [FactsAdd n v 0]) \<and>
     (w3mGlobalSyncInProgress p \<longrightarrow>
        (\<exists>g'. W3mFlushPendingFacts (script_W3mAtomicAddFact t n v 0 g) = Inr g' \<and>
              facts_calls g' =
                facts_calls g @ map replayed (w3mPendingFacts p) @ [FactsRemove n]))"
  by (simp add: script_W3mAtomicAddFact_def W3mFlushPendingFacts_def replay_pending_calls
      W3mNativeFactsAdd_def replayed_def)

theorem atomic_add_validFor_by_lock_state_witness:
  "facts_calls (script_W3mAtomicAddFact 0 ''q'' 1 0 (game_at 1000 0)) = [FactsAdd ''q'' 1 0] \<and>
   (\<exists>g'. W3mFlushPendingFacts (script_W3mAtomicAddFact 0 ''q'' 1 0 (syncing (game_at 1000 0))) = Inr g' \<and>
         facts_calls g' = [FactsRemove ''q''])"
proof -
  let ?p0 = "player_with_crowns 0"
  have idle: "thePlayer (game_at 1000 0) = Some ?p0" "\<not> w3mGlobalSyncInProgress ?p0"
    "facts_calls (game_at 1000 0) = []"
    by (simp_all add: fixture_defs)
  have busy: "thePlayer (syncing (game_at 1000 0)) = Some (?p0\<lparr>w3mGlobalSyncInProgress := True\<rparr>)"
    "w3mGlobalSyncInProgress (?p0\<lparr>w3mGlobalSyncInProgress := True\<rparr>)"
    "w3mPendingFacts (?p0\<lparr>w3mGlobalSyncInProgress := True\<rparr>) = []"
    "facts_calls (syncing (game_at 1000 0)) = []"
    by (simp_all add: fixture_defs)
  have a: "facts_calls (script_W3mAtomicAddFact 0 ''q'' 1 0 (game_at 1000 0)) =
             facts_calls (game_at 1000 0) @ [FactsAdd ''q'' 1 0]"
    using atomic_add_validFor_by_lock_state [of "game_at 1000 0" ?p0 0 "''q''" 1 0] idle by blast
  have b: "\<exists>g'. W3mFlushPendingFacts (script_W3mAtomicAddFact 0 ''q'' 1 0 (syncing (game_at 1000 0))) = Inr g' \<and>
         facts_calls g' = facts_calls (syncing (game_at 1000 0)) @
            map replayed (w3mPendingFacts (?p0\<lparr>w3mGlobalSyncInProgress := True\<rparr>)) @ [FactsRemove ''q'']"
    using atomic_add_validFor_by_lock_state [of "syncing (game_at 1000 0)"
        "?p0\<lparr>w3mGlobalSyncInProgress := True\<rparr>" 0 "''q''" 1 0] busy(1,2) by blast
  from a b show ?thesis
    unfolding idle(3) busy(3,4) by simp
qed


section \<open>Packet listeners: the handshake gate\<close>

text \<open>
  Every listener counts the packet in the telemetry before it enters
  \<^verbatim>\<open>receive_packet_safe\<close>, so a loot packet that arrives before the handshake is dropped
  by the gate and still raises \<^verbatim>\<open>packets_received\<close> from 0 to 1.
\<close>

theorem dropped_packet_is_counted_counterexample:
  "\<not> is_handshake_complete bridge_init \<and>
   on_packet example_transport Loot 0 [] bridge_init \<noteq> bridge_init \<and>
   packets_received bridge_init = 0 \<and>
   packets_received (on_packet example_transport Loot 0 [] bridge_init) = 1"
  by (simp add: receive_inventory_safe_def receive_packet_safe_def increment_received_def
      is_handshake_complete_def bridge_init_def example_transport_def)

lemma gate_blocks:
  "\<not> is_handshake_complete s \<Longrightarrow> receive_packet_safe T nm a d h True s = s"
  by (simp add: receive_packet_safe_def)

lemma complete_increment [simp]:
  "is_handshake_complete (increment_received s) = is_handshake_complete s"
  by (simp add: increment_received_def is_handshake_complete_def)

text \<open>
  C2, as the code has it. While the session is not established, a message on any channel
  other than the handshake channel changes nothing but the telemetry count of received
  packets: the gate \<^verbatim>\<open>receive_packet_safe\<close> returns before the handler is dispatched,
  for every handler. A handshake record that passes the listener's envelope checks (it
  comes from the master server, carries the protocol tag and decodes) sets the session
  established and stores its identifier when the identifier is not zero; with a zero
  identifier it is rejected: only the packet count changes, the established flag stays
  as it was, and the listener returns normally.
\<close>

theorem handshake_gate:
  "(ch \<noteq> Handshake \<and> \<not> is_handshake_complete s \<longrightarrow>
      on_packet T ch a d s = increment_received s) \<and>
   (\<not> is_handshake_complete s \<longrightarrow> receive_packet_safe T nm a d h True s = s) \<and>
   (a = get_master_server T \<and> read_uint32 T d = Some (PROTOCOL T) \<and>
    read_handshake T d = Some pkt \<longrightarrow>
      (hs_session_id pkt \<noteq> 0 \<longrightarrow>
         is_handshake_complete (on_packet T Handshake a d s) \<and>
         g_session_id (on_packet T Handshake a d s) = hs_session_id pkt) \<and>
      (hs_session_id pkt = 0 \<longrightarrow>
         on_packet T Handshake a d s = increment_received s \<and>
         is_handshake_complete (on_packet T Handshake a d s) = is_handshake_complete s))"
proof -
  have gated: "ch \<noteq> Handshake \<and> \<not> is_handshake_complete s \<longrightarrow>
      on_packet T ch a d s = increment_received s"
    by (cases ch)
       (simp_all add: receive_inventory_safe_def receive_session_state_safe_def
          receive_achievement_safe_def receive_heartbeat_safe_def gate_blocks)
  have hs: "a = get_master_server T \<and> read_uint32 T d = Some (PROTOCOL T) \<and>
    read_handshake T d = Some pkt \<longrightarrow>
      (hs_session_id pkt \<noteq> 0 \<longrightarrow>
         is_handshake_complete (on_packet T Handshake a d s) \<and>
         g_session_id (on_packet T Handshake a d s) = hs_session_id pkt) \<and>
      (hs_session_id pkt = 0 \<longrightarrow>
         on_packet T Handshake a d s = increment_received s \<and>
         is_handshake_complete (on_packet T Handshake a d s) = is_handshake_complete s)"
    by (simp add: receive_handshake_safe_def receive_packet_safe_def handshake_handler_def
        set_handshake_complete_def is_handshake_complete_def increment_received_def)
  from gated hs show ?thesis by (simp add: gate_blocks)
qed

theorem handshake_gate_witness:
  "on_packet example_transport Achievement 0 (handshake_bytes 42) bridge_init =
     increment_received bridge_init \<and>
   is_handshake_complete (on_packet example_transport Handshake 0 (handshake_bytes 42) bridge_init) \<and>
   g_session_id (on_packet example_transport Handshake 0 (handshake_bytes 42) bridge_init) = 42 \<and>
   \<not> is_handshake_complete (on_packet example_transport Handshake 0 (handshake_bytes 0) bridge_init)"
proof -
  let ?pkt = "\<lambda>sid. \<lparr>hs_session_id = sid, hs_player_guid = 0, hs_protocol_version = 1,
                      hs_player_name = ''Geralt'', hs_timestamp = 0\<rparr> :: handshake_packet"
  have fresh: "\<not> is_handshake_complete bridge_init"
    by (simp add: is_handshake_complete_def bridge_init_def)
  have env42: "(0::nat) = get_master_server example_transport \<and>
      read_uint32 example_transport (handshake_bytes 42) = Some (PROTOCOL example_transport) \<and>
      read_handshake example_transport (handshake_bytes 42) = Some (?pkt 42)"
    by (simp add: example_transport_def handshake_bytes_def le_word_def)
  have env0: "(0::nat) = get_master_server example_transport \<and>
      read_uint32 example_transport (handshake_bytes 0) = Some (PROTOCOL example_transport) \<and>
      read_handshake example_transport (handshake_bytes 0) = Some (?pkt 0)"
    by (simp add: example_transport_def handshake_bytes_def le_word_def)
  have a: "on_packet example_transport Achievement 0 (handshake_bytes 42) bridge_init =
     increment_received bridge_init"
    using handshake_gate [of Achievement bridge_init example_transport 0 "handshake_bytes 42"] fresh
    by simp
  have b: "is_handshake_complete (on_packet example_transport Handshake 0 (handshake_bytes 42) bridge_init) \<and>
     g_session_id (on_packet example_transport Handshake 0 (handshake_bytes 42) bridge_init) = 42"
    using handshake_gate [of _ bridge_init example_transport 0 "handshake_bytes 42" _ _ "?pkt 42"] env42
    by simp
  have c: "\<not> is_handshake_complete (on_packet example_transport Handshake 0 (handshake_bytes 0) bridge_init)"
    using handshake_gate [of _ bridge_init example_transport 0 "handshake_bytes 0" _ _ "?pkt 0"] env0 fresh
    by simp
  from a b c show ?thesis by blast
qed

section \<open>Interpolator: position bounds\<close>

text \<open>
  A run with packet loss. One snapshot at time 0 (at 0 on the first axis, moving at 10
  units per second); a render call at 1100 ms finds a single snapshot, extrapolates to 10
  and keeps that state as the anchor; a second snapshot (at 1) arrives at 1150.5 ms. The
  render call at 1250.2 ms finds both snapshots around its render time of 1150.2 ms, and
  \<^verbatim>\<open>apply_blend_if_needed\<close> starts the recovery blend at the anchor: the call returns
  the position 10, outside the interval from 0 to 1. Every float operation of this run
  is exact.
\<close>

lemma f_of_int_zero [simp]: "f_of_int 0 = Finite 0"
  by (simp add: f_of_int_def)

lemma f_of_int_numeral [simp]:
  "(numeral k :: int) < 2 ^ 24 \<Longrightarrow> f_of_int (numeral k) = Finite (numeral k)"
  by (simp add: f_of_int_def)

lemmas f_finite = f_add_finite f_sub_finite f_mul_finite f_div_finite

lemma first_snapshot_eq:
  "first_snapshot = interpolator_init
     \<lparr>snapshots := [\<lparr>snap_state = moving_at 0 10, snap_timestamp = 0, snap_valid = True\<rparr>,
                    empty_snapshot, empty_snapshot],
      write_index := 1, snapshot_count := 1\<rparr>"
  by (simp add: first_snapshot_def add_snapshot_def interpolator_init_def SNAPSHOT_BUFFER_SIZE_def)

lemma extrapolated:
  "get_extrapolated_position (milliseconds 1100) first_snapshot = Some (moving_at 10 10)"
  by (simp add: first_snapshot_eq get_extrapolated_position_def get_most_recent_snapshot_def
      get_latest_snapshot_ptr_def empty_snapshot_def interpolator_init_def
      milliseconds_def duration_cast_ms_def INTERPOLATION_DELAY_MS_def moving_at_def
      zero_state_def f_finite)

lemma extrapolating_eq:
  "extrapolating = first_snapshot
     \<lparr>in_extrapolation := True, blend_active := False,
      extrapolation_anchor := Some (moving_at 10 10),
      last_returned_state := Some (moving_at 10 10)\<rparr>"
  by (simp add: extrapolating_def handle_extrapolation_def extrapolated)

lemma extrapolating_call:
  "get_interpolated_state (milliseconds 1100) (milliseconds 1100) first_snapshot =
     Some (Some (moving_at 10 10), extrapolating)"
proof -
  have "snapshot_count first_snapshot < 2" by (simp add: first_snapshot_eq)
  then show ?thesis
    by (simp add: get_interpolated_state_def handle_extrapolation_def extrapolated extrapolating_eq)
qed

lemma after_packet_loss_eq:
  "after_packet_loss = interpolator_init
     \<lparr>snapshots := [\<lparr>snap_state = moving_at 0 10, snap_timestamp = 0, snap_valid = True\<rparr>,
                    \<lparr>snap_state = moving_at 1 0, snap_timestamp = 1150500000, snap_valid = True\<rparr>,
                    empty_snapshot],
      write_index := 2, snapshot_count := 2,
      in_extrapolation := True, blend_active := False,
      extrapolation_anchor := Some (moving_at 10 10),
      last_returned_state := Some (moving_at 10 10)\<rparr>"
  by (simp add: after_packet_loss_def extrapolating_eq first_snapshot_eq add_snapshot_def
      interpolator_init_def SNAPSHOT_BUFFER_SIZE_def)

lemma after_packet_loss_bracket:
  "bracket (1250200000 - milliseconds INTERPOLATION_DELAY_MS) (None, None)
     (take (snapshot_count after_packet_loss) (snapshots after_packet_loss)) =
     (Some \<lparr>snap_state = moving_at 0 10, snap_timestamp = 0, snap_valid = True\<rparr>,
      Some \<lparr>snap_state = moving_at 1 0, snap_timestamp = 1150500000, snap_valid = True\<rparr>)"
  by (simp add: after_packet_loss_eq milliseconds_def INTERPOLATION_DELAY_MS_def)

lemma normalized_zero [simp]: "normalized (Finite 0) = Some (Finite 0)"
  by (simp add: normalized_def wrap_down.simps wrap_up.simps f_less_def)

lemma rest_angles [simp]:
  "lerp_angles \<lparr>ex = Finite 0, ey = Finite 0, ez = Finite 0\<rparr>
     \<lparr>ex = Finite 0, ey = Finite 0, ez = Finite 0\<rparr> (Finite \<tau>) =
   Some \<lparr>ex = Finite 0, ey = Finite 0, ez = Finite 0\<rparr>"
  by (simp add: lerp_angles_def lerp_angle_def f_finite)

lemma interpolated_at_end:
  "blend_packets (moving_at 0 10) (moving_at 1 0) (Finite 1) = Some (moving_at 1 0)"
  by (simp add: blend_packets_def lerp_vector_def lerp_def moving_at_def zero_state_def f_finite)

lemma blend_from_anchor:
  "map_option fst (apply_blend_if_needed (moving_at 1 0) 1250200000 after_packet_loss) =
     Some (moving_at 10 10)"
  by (simp add: after_packet_loss_eq apply_blend_if_needed_def begin_blend_def Let_def
      interpolator_init_def duration_cast_ms_def RECOVERY_BLEND_DURATION_MS_def clamp_def
      f_less_def blend_packets_def lerp_vector_def lerp_def moving_at_def zero_state_def f_finite)

lemma render_after_packet_loss:
  "map_option fst (get_interpolated_state 1250200000 1250200000 after_packet_loss) =
     Some (Some (moving_at 10 10))"
proof -
  have cnt: "\<not> snapshot_count after_packet_loss < 2" by (simp add: after_packet_loss_eq)
  have td: "duration_cast_ms 1150500000 = 1150"
    "duration_cast_ms (1250200000 - milliseconds INTERPOLATION_DELAY_MS) = 1150"
    by (simp_all add: duration_cast_ms_def milliseconds_def INTERPOLATION_DELAY_MS_def)
  have t: "clamp (f_div (Finite 1150) (Finite 1150)) (Finite 0) (Finite 1) = Finite 1"
    by (simp add: clamp_def f_less_def f_finite)
  obtain r s' where rs: "apply_blend_if_needed (moving_at 1 0) 1250200000 after_packet_loss = Some (r, s')"
    using blend_from_anchor by (cases "apply_blend_if_needed (moving_at 1 0) 1250200000 after_packet_loss") auto
  with blend_from_anchor have r: "r = moving_at 10 10" by simp
  show ?thesis
    unfolding get_interpolated_state_def Let_def after_packet_loss_bracket
    using cnt by (simp add: td t interpolated_at_end rs r)
qed

text \<open>
  A run without any blend. The older snapshot is at 1 on the first axis, the newer one
  at \<open>2 ^ -26\<close>, and the render time falls in the last millisecond before the newer
  one, so the fraction is 1. In binary32 the difference \<open>2 ^ -26 - 1\<close> rounds to \<open>-1\<close>, and
  \<^verbatim>\<open>lerp\<close> returns \<open>1 + (-1) * 1 = 0\<close>, below both snapshots. The same happens at
  ordinary coordinates: from the float nearest 799.76 to the float nearest -808.81, at
  fraction 1, \<^verbatim>\<open>lerp\<close> returns the float just below the target.
\<close>

lemma tiny_difference_rounds: "round32 (- (67108863 / 67108864)) = Finite (- 1)"
proof -
  have "nearest (67108863 / 67108864) = 1"
    by (subst nearest_at [where e = "- 1"]) (simp_all add: pow2_def round_even_def)
  then show ?thesis by (simp add: round32_def)
qed

lemma lerp_overshoots_at_ordinary_coordinates:
  "lerp (Finite (13103268 / 2 ^ 14)) (Finite (- (13251543 / 2 ^ 14))) (Finite 1) =
     Finite (- (13251544 / 2 ^ 14))"
proof -
  have "nearest (26354811 / 16384) = 13177406 / 8192"
    by (subst nearest_at [where e = 10]) (simp_all add: pow2_def round_even_def)
  then have d: "round32 (- (13251543 / 2 ^ 14) - 13103268 / 2 ^ 14) = Finite (- (13177406 / 2 ^ 13))"
    by (simp add: round32_def)
  have "(13177406 / 2 ^ 13 :: real) = of_int 13177406 * pow2 (- 13)" by (simp add: pow2_def)
  then have m: "round32 (13177406 / 2 ^ 13) = Finite (13177406 / 2 ^ 13)"
    by (rule round32_exact) (simp_all add: pow2_def)
  have "(13251544 / 2 ^ 14 :: real) = of_int 13251544 * pow2 (- 14)" by (simp add: pow2_def)
  then have "round32 (13251544 / 2 ^ 14) = Finite (13251544 / 2 ^ 14)"
    by (rule round32_exact) (simp_all add: pow2_def)
  then have e: "round32 (- (13251544 / 2 ^ 14)) = Finite (- (13251544 / 2 ^ 14))"
    by (simp only: round32_minus) (simp add: f_neg_def)
  have s: "13103268 / 2 ^ 14 + - (13177406 / 2 ^ 13) = - (13251544 / 2 ^ 14 :: real)" by simp
  have p: "f_mul (Finite (- (13177406 / 2 ^ 13))) (Finite 1) = Finite (- (13177406 / 2 ^ 13))"
    unfolding f_mul_finite mult_1_right using m by (simp only: round32_minus) (simp add: f_neg_def)
  show ?thesis
    unfolding lerp_def f_sub_finite d p f_add_finite s by (rule e)
qed

lemma nearly_there_eq:
  "nearly_there = interpolator_init
     \<lparr>snapshots := [\<lparr>snap_state = moving_at 1 0, snap_timestamp = 0, snap_valid = True\<rparr>,
                    \<lparr>snap_state = moving_at tiny 0, snap_timestamp = 1150500000,
                     snap_valid = True\<rparr>,
                    empty_snapshot],
      write_index := 2, snapshot_count := 2\<rparr>"
  by (simp add: nearly_there_def add_snapshot_def interpolator_init_def SNAPSHOT_BUFFER_SIZE_def)

lemma nearly_there_bracket:
  "bracket (1250200000 - milliseconds INTERPOLATION_DELAY_MS) (None, None)
     (take (snapshot_count nearly_there) (snapshots nearly_there)) =
     (Some \<lparr>snap_state = moving_at 1 0, snap_timestamp = 0, snap_valid = True\<rparr>,
      Some \<lparr>snap_state = moving_at tiny 0, snap_timestamp = 1150500000, snap_valid = True\<rparr>)"
  by (simp add: nearly_there_eq milliseconds_def INTERPOLATION_DELAY_MS_def)

lemma overshoot: "blend_packets (moving_at 1 0) (moving_at tiny 0) (Finite 1) = Some (moving_at 0 0)"
  by (simp add: blend_packets_def lerp_vector_def lerp_def moving_at_def zero_state_def f_finite
      tiny_difference_rounds tiny_def)

lemma render_nearly_there:
  "map_option fst (get_interpolated_state 1250200000 1250200000 nearly_there) =
     Some (Some (moving_at 0 0))"
proof -
  have cnt: "\<not> snapshot_count nearly_there < 2" by (simp add: nearly_there_eq)
  have td: "duration_cast_ms 1150500000 = 1150"
    "duration_cast_ms (1250200000 - milliseconds INTERPOLATION_DELAY_MS) = 1150"
    by (simp_all add: duration_cast_ms_def milliseconds_def INTERPOLATION_DELAY_MS_def)
  have t: "clamp (f_div (Finite 1150) (Finite 1150)) (Finite 0) (Finite 1) = Finite 1"
    by (simp add: clamp_def f_less_def f_finite)
  have nb: "apply_blend_if_needed target 1250200000 nearly_there = Some (target, nearly_there)" for target
    by (simp add: apply_blend_if_needed_def nearly_there_eq interpolator_init_def)
  show ?thesis
    unfolding get_interpolated_state_def Let_def nearly_there_bracket
    using cnt by (simp add: td t overshoot nb)
qed

theorem recovery_blend_leaves_bracket_counterexample:
  "bracket (1250200000 - milliseconds INTERPOLATION_DELAY_MS) (None, None)
     (take (snapshot_count after_packet_loss) (snapshots after_packet_loss)) =
     (Some \<lparr>snap_state = moving_at 0 10, snap_timestamp = 0, snap_valid = True\<rparr>,
      Some \<lparr>snap_state = moving_at 1 0, snap_timestamp = 1150500000, snap_valid = True\<rparr>) \<and>
   map_option fst (get_interpolated_state 1250200000 1250200000 after_packet_loss) =
     Some (Some (moving_at 10 10)) \<and>
   \<not> position_between (moving_at 0 10) (moving_at 10 10) (moving_at 1 0) \<and>
   bracket (1250200000 - milliseconds INTERPOLATION_DELAY_MS) (None, None)
     (take (snapshot_count nearly_there) (snapshots nearly_there)) =
     (Some \<lparr>snap_state = moving_at 1 0, snap_timestamp = 0, snap_valid = True\<rparr>,
      Some \<lparr>snap_state = moving_at tiny 0, snap_timestamp = 1150500000, snap_valid = True\<rparr>) \<and>
   \<not> blend_active nearly_there \<and> \<not> in_extrapolation nearly_there \<and>
   map_option fst (get_interpolated_state 1250200000 1250200000 nearly_there) =
     Some (Some (moving_at 0 0)) \<and>
   \<not> position_between (moving_at 1 0) (moving_at 0 0) (moving_at tiny 0)"
proof -
  have out: "\<not> position_between (moving_at 0 10) (moving_at 10 10) (moving_at 1 0)"
    by (simp add: position_between_def between_def moving_at_def f_le_def f_less_def)
  have out': "\<not> position_between (moving_at 1 0) (moving_at 0 0) (moving_at tiny 0)"
    by (simp add: position_between_def between_def moving_at_def f_le_def f_less_def tiny_def)
  have quiet: "\<not> blend_active nearly_there" "\<not> in_extrapolation nearly_there"
    by (simp_all add: nearly_there_eq interpolator_init_def)
  from after_packet_loss_bracket render_after_packet_loss out
    nearly_there_bracket quiet render_nearly_there out'
  show ?thesis by blast
qed

text \<open>
  What holds in binary32. Rounding is monotone, so for a fraction in \<open>[0, 1]\<close> the value
  \<open>a + (b - a) * t\<close> lies between \<open>a\<close> and the value the same formula takes at fraction 1.
\<close>

lemma lerp_within:
  assumes fa: "is_float a" and t0: "0 \<le> \<tau>" and t1: "\<tau> \<le> 1"
    and last: "lerp (Finite a) (Finite b) (Finite 1) = Finite b'"
  shows "\<exists>r. lerp (Finite a) (Finite b) (Finite \<tau>) = Finite r
           \<and> (a \<le> r \<and> r \<le> b' \<or> b' \<le> r \<and> r \<le> a)"
proof -
  have sub: "f_sub (Finite b) (Finite a) = round32 (b - a)"
    by (simp add: f_sub_def f_add_def f_neg_def)
  obtain d where d: "round32 (b - a) = Finite d"
    using last unfolding lerp_def sub
    by (cases "round32 (b - a)") (simp_all add: f_mul_def f_add_def f_sign_def)
  then have dd: "round32 d = Finite d" by (rule round32_idem)
  have ra: "round32 a = Finite a" using fa by (simp add: is_float_def)
  have e: "round32 (a + d) = Finite b'"
    using last unfolding lerp_def sub d by (simp add: f_mul_def f_add_def dd)
  have val: "lerp (Finite a) (Finite b) (Finite \<tau>) = f_add (Finite a) (round32 (d * \<tau>))"
    unfolding lerp_def sub d by (simp add: f_mul_def)
  show ?thesis
  proof (cases "0 \<le> d")
    case True
    have "0 \<le> d * \<tau>" "d * \<tau> \<le> d" using True t0 t1 by (simp_all add: mult_left_le)
    from round32_between [OF this round32_0 dd] obtain p where
      p: "round32 (d * \<tau>) = Finite p" "0 \<le> p" "p \<le> d" by blast
    have "a \<le> a + p" "a + p \<le> a + d" using p by simp_all
    from round32_between [OF this ra e] obtain r where
      r: "round32 (a + p) = Finite r" "a \<le> r" "r \<le> b'" by blast
    show ?thesis unfolding val p(1) using r by (simp add: f_add_def)
  next
    case False
    then have "d \<le> d * \<tau>" "d * \<tau> \<le> 0" using t0 t1
      by (simp_all add: mult_le_0_iff mult_left_le_one_le)
    from round32_between [OF this dd round32_0] obtain p where
      p: "round32 (d * \<tau>) = Finite p" "d \<le> p" "p \<le> 0" by blast
    have "a + d \<le> a + p" "a + p \<le> a" using p by simp_all
    from round32_between [OF this e ra] obtain r where
      r: "round32 (a + p) = Finite r" "b' \<le> r" "r \<le> a" by blast
    show ?thesis unfolding val p(1) using r by (simp add: f_add_def)
  qed
qed

lemma round32_not_nan [simp]: "round32 x \<noteq> NaN"
  by (simp add: round32_def Let_def)

lemma clamp_unit:
  "v \<noteq> NaN \<Longrightarrow> \<exists>\<tau>. clamp v (Finite 0) (Finite 1) = Finite \<tau> \<and> 0 \<le> \<tau> \<and> \<tau> \<le> 1"
  by (cases v) (auto simp add: clamp_def f_less_def)

lemma round32_2_64: "round32 (2 ^ 64) = Finite (2 ^ 64)"
  by (rule round32_exact [where m = 1 and j = 64]) (simp_all add: pow2_def)

lemma f_of_int_finite:
  assumes "\<bar>n\<bar> \<le> 2 ^ 64"
  shows "\<exists>y. f_of_int n = Finite y \<and> (n \<noteq> 0 \<longrightarrow> y \<noteq> 0)"
proof -
  have "\<bar>real_of_int n\<bar> \<le> 2 ^ 64" using assms
    by (metis of_int_abs of_int_le_numeral_power_cancel_iff)
  then have "\<bar>real_of_int n\<bar> \<le> \<bar>(2::real) ^ 64\<bar>" by simp
  from round32_finite_le [OF this round32_2_64] obtain y where y: "round32 (of_int n) = Finite y"
    by blast
  have "y \<noteq> 0" if "n \<noteq> 0"
  proof (cases "0 < n")
    case True
    then have "(1::real) \<le> of_int n" by simp
    from round32_mono [OF this round32_1 y] show ?thesis by simp
  next
    case False
    with that have "real_of_int n \<le> - 1" by simp
    from round32_mono [OF this y round32_neg_1] show ?thesis by simp
  qed
  with y show ?thesis by (simp add: f_of_int_def)
qed

lemma fraction_clamped:
  assumes el: "\<bar>el\<bar> \<le> 2 ^ 64" and td: "\<bar>td\<bar> \<le> 2 ^ 64" "td \<noteq> 0"
  shows "\<exists>\<tau>. clamp (f_div (f_of_int el) (f_of_int td)) (Finite 0) (Finite 1) = Finite \<tau>
           \<and> 0 \<le> \<tau> \<and> \<tau> \<le> 1"
proof -
  from f_of_int_finite [OF el] obtain x where x: "f_of_int el = Finite x" by blast
  from f_of_int_finite [OF td(1)] td(2) obtain y where y: "f_of_int td = Finite y" "y \<noteq> 0" by blast
  have "f_div (f_of_int el) (f_of_int td) \<noteq> NaN" unfolding x y(1) using y(2) by (simp add: f_div_finite)
  then show ?thesis by (rule clamp_unit)
qed

lemma duration_cast_ms_le: "\<bar>duration_cast_ms d\<bar> \<le> \<bar>d\<bar>"
proof -
  have shrink: "0 \<le> x div 1000000 \<and> x div 1000000 \<le> x" if "0 \<le> x" for x :: int
  proof -
    have q: "0 \<le> x div 1000000" using that by (simp add: pos_imp_zdiv_nonneg_iff)
    have "x div 1000000 * 1000000 + x mod 1000000 = x" by simp
    moreover have "0 \<le> x mod 1000000" by simp
    ultimately show ?thesis using q by linarith
  qed
  show ?thesis
  proof (cases "0 \<le> d")
    case True
    with shrink [of d] show ?thesis by (simp add: duration_cast_ms_def)
  next
    case False
    with shrink [of "- d"] show ?thesis by (simp add: duration_cast_ms_def)
  qed
qed

lemma reaches_between:
  assumes r: "reaches a b" and t: "0 \<le> \<tau>" "\<tau> \<le> 1"
  shows "between a (lerp a b (Finite \<tau>)) b"
proof -
  from r obtain x y where xy: "a = Finite x" "b = Finite y" "is_float x"
      "lerp (Finite x) (Finite y) (Finite 1) = Finite y"
    by (auto simp add: reaches_def split: f32.splits)
  from lerp_within [OF xy(3) t xy(4)] obtain v where
    "lerp (Finite x) (Finite y) (Finite \<tau>) = Finite v" "x \<le> v \<and> v \<le> y \<or> y \<le> v \<and> v \<le> x"
    by blast
  then show ?thesis unfolding xy(1,2) by (auto simp add: between_def f_le_def f_less_def)
qed

lemma reaches_left: "reaches a b \<Longrightarrow> between a a b"
  by (auto simp add: reaches_def between_def f_le_def f_less_def split: f32.splits)

lemma round32_2_23: "round32 (2 ^ 23) = Finite (2 ^ 23)" "round32 (- (2 ^ 23)) = Finite (- (2 ^ 23))"
proof -
  have "round32 (2 ^ 23) = Finite (2 ^ 23)"
    by (rule round32_exact [where m = 1 and j = 23]) (simp_all add: pow2_def)
  then show "round32 (2 ^ 23) = Finite (2 ^ 23)" "round32 (- (2 ^ 23)) = Finite (- (2 ^ 23))"
    by (simp_all only: round32_minus) (simp add: f_neg_def)
qed

lemma lerp_angle_returns:
  assumes a: "tame a" and b: "tame b"
  shows "\<exists>r. lerp_angle a b t = Some r"
proof -
  from a b obtain x y where xy: "a = Finite x" "b = Finite y" "\<bar>x\<bar> \<le> 2 ^ 22" "\<bar>y\<bar> \<le> 2 ^ 22"
    by (auto simp add: tame_def split: f32.splits)
  then have "- (2 ^ 23) \<le> y - x" "y - x \<le> 2 ^ 23" by simp_all
  from round32_between [OF this round32_2_23(2) round32_2_23(1)] obtain d where
    d: "round32 (y - x) = Finite d" "- (2 ^ 23) \<le> d" "d \<le> 2 ^ 23" by blast
  have fl: "is_float d" unfolding is_float_def using d(1) by (rule round32_idem)
  have "\<bar>d\<bar> < pow2 27" using d(2,3) by (simp add: pow2_def)
  from normalized_returns [OF fl this] obtain n where "normalized (Finite d) = Some (Finite n)"
    by blast
  then show ?thesis unfolding lerp_angle_def xy(1,2) f_sub_finite d(1) by simp
qed

lemma blend_packets_returns:
  assumes "angles_tame A" "angles_tame B"
  shows "\<exists>X. blend_packets A B t = Some X \<and> position X = lerp_vector (position A) (position B) t"
proof -
  from assms obtain x y z where
    "lerp_angle (ex (angles A)) (ex (angles B)) t = Some x"
    "lerp_angle (ey (angles A)) (ey (angles B)) t = Some y"
    "lerp_angle (ez (angles A)) (ez (angles B)) t = Some z"
    unfolding angles_tame_def using lerp_angle_returns by metis
  then show ?thesis by (simp add: blend_packets_def lerp_angles_def)
qed

lemma bracket_brackets: "brackets rt acc \<Longrightarrow> brackets rt (bracket rt acc xs)"
proof (induction xs arbitrary: acc)
  case Nil
  then show ?case by (cases acc) simp
next
  case (Cons snap xs)
  obtain ol nw where acc: "acc = (ol, nw)" by (cases acc)
  show ?case
    unfolding acc bracket.simps
    by (rule Cons.IH) (use Cons.prems acc in \<open>auto simp: brackets_def split: option.splits\<close>)
qed

lemma no_blend:
  "\<not> blend_active s \<Longrightarrow> \<not> (in_extrapolation s \<and> extrapolation_anchor s \<noteq> None) \<Longrightarrow>
   apply_blend_if_needed target now s = Some (target, s)"
  by (auto simp: apply_blend_if_needed_def split: option.splits)

lemma blend_packets_position:
  "blend_packets A B t = Some X \<Longrightarrow> position X = lerp_vector (position A) (position B) t"
  by (auto simp add: blend_packets_def split: option.splits)

text \<open>
  C8, as the code has it. When the search loop of \<^verbatim>\<open>get_interpolated_state\<close> finds an
  older snapshot A (at or before the render time) and a newer snapshot B (after it), no
  recovery blend is active or about to start (the interpolator is not resuming from
  extrapolation), and for each of the four position components \<^verbatim>\<open>lerp\<close> at fraction 1
  returns B's component exactly (the components being finite binary32 values), the
  state the call returns has its four position components each between A's and B's,
  inclusive: the fraction is clamped to \<open>[0, 1]\<close> before the component-wise interpolation,
  and rounding is monotone. And the call does return when the angles of both snapshots
  are at most \<open>2 ^ 22\<close> degrees in magnitude. The arrival times are taken to fit the
  clock's 64 bits.
\<close>

theorem interpolated_position_between:
  "2 \<le> snapshot_count s \<and>
   bracket (now - milliseconds INTERPOLATION_DELAY_MS) (None, None)
     (take (snapshot_count s) (snapshots s)) = (Some A, Some B) \<and>
   \<not> blend_active s \<and> \<not> (in_extrapolation s \<and> extrapolation_anchor s \<noteq> None) \<and>
   position_reaches (snap_state A) (snap_state B) \<and>
   in_clock_range (snap_timestamp A) \<and> in_clock_range (snap_timestamp B) \<longrightarrow>
     snap_timestamp A \<le> now - milliseconds INTERPOLATION_DELAY_MS \<and>
     now - milliseconds INTERPOLATION_DELAY_MS < snap_timestamp B \<and>
     (\<forall>r s'. get_interpolated_state now now' s = Some (r, s') \<longrightarrow>
         (\<exists>X. r = Some X \<and> position_between (snap_state A) X (snap_state B))) \<and>
     (angles_tame (snap_state A) \<and> angles_tame (snap_state B) \<longrightarrow>
        (\<exists>X s'. get_interpolated_state now now' s = Some (Some X, s')))"
proof (intro impI, elim conjE)
  let ?rt = "now - milliseconds INTERPOLATION_DELAY_MS"
  assume cnt: "2 \<le> snapshot_count s"
    and br: "bracket ?rt (None, None) (take (snapshot_count s) (snapshots s)) = (Some A, Some B)"
    and nb: "\<not> blend_active s" and ne: "\<not> (in_extrapolation s \<and> extrapolation_anchor s \<noteq> None)"
    and pr: "position_reaches (snap_state A) (snap_state B)"
    and ca: "in_clock_range (snap_timestamp A)" and cb: "in_clock_range (snap_timestamp B)"
  have "brackets ?rt (None, None)" by (simp add: brackets_def)
  then have "brackets ?rt (bracket ?rt (None, None) (take (snapshot_count s) (snapshots s)))"
    by (rule bracket_brackets)
  then have order: "snap_timestamp A \<le> ?rt \<and> ?rt < snap_timestamp B"
    unfolding br by (simp add: brackets_def)
  let ?td = "duration_cast_ms (snap_timestamp B - snap_timestamp A)"
  let ?el = "duration_cast_ms (?rt - snap_timestamp A)"
  let ?t = "clamp (f_div (f_of_int ?el) (f_of_int ?td)) (Finite 0) (Finite 1)"
  have res: "(\<forall>r s'. get_interpolated_state now now' s = Some (r, s') \<longrightarrow>
         (\<exists>X. r = Some X \<and> position_between (snap_state A) X (snap_state B))) \<and>
     (angles_tame (snap_state A) \<and> angles_tame (snap_state B) \<longrightarrow>
        (\<exists>X s'. get_interpolated_state now now' s = Some (Some X, s')))"
  proof (cases "?td = 0")
    case True
    then have "get_interpolated_state now now' s = Some (Some (snap_state A), s)"
      using cnt br by (simp add: get_interpolated_state_def Let_def)
    moreover have "position_between (snap_state A) (snap_state A) (snap_state B)"
      using pr by (simp add: position_between_def position_reaches_def reaches_left)
    ultimately show ?thesis by simp
  next
    case False
    have "\<bar>snap_timestamp B - snap_timestamp A\<bar> \<le> 2 ^ 64"
      using ca cb unfolding in_clock_range_def by (simp add: abs_le_iff)
    with duration_cast_ms_le [of "snap_timestamp B - snap_timestamp A"]
    have b1: "\<bar>?td\<bar> \<le> 2 ^ 64" by linarith
    have "\<bar>?rt - snap_timestamp A\<bar> \<le> 2 ^ 64"
      using order cb ca unfolding in_clock_range_def by (simp add: abs_le_iff)
    with duration_cast_ms_le [of "?rt - snap_timestamp A"]
    have b2: "\<bar>?el\<bar> \<le> 2 ^ 64" by linarith
    from fraction_clamped [OF b2 b1 False] obtain \<tau> where
      tau: "?t = Finite \<tau>" "0 \<le> \<tau>" "\<tau> \<le> 1" by blast
    have val: "get_interpolated_state now now' s =
        (case blend_packets (snap_state A) (snap_state B) (Finite \<tau>) of
           None \<Rightarrow> None
         | Some X \<Rightarrow> Some (Some X, s\<lparr>last_returned_state := Some X\<rparr>))"
      using cnt br False no_blend [OF nb ne]
      by (simp add: get_interpolated_state_def Let_def tau(1) split: option.splits)
    have inside: "position_between (snap_state A) X (snap_state B)"
      if "blend_packets (snap_state A) (snap_state B) (Finite \<tau>) = Some X" for X
      using pr tau(2,3) blend_packets_position [OF that]
      by (simp add: position_between_def position_reaches_def lerp_vector_def reaches_between)
    have partial: "\<forall>r s'. get_interpolated_state now now' s = Some (r, s') \<longrightarrow>
         (\<exists>X. r = Some X \<and> position_between (snap_state A) X (snap_state B))"
      unfolding val using inside by (auto split: option.splits)
    have total: "\<exists>X s'. get_interpolated_state now now' s = Some (Some X, s')"
      if "angles_tame (snap_state A) \<and> angles_tame (snap_state B)"
    proof -
      from that blend_packets_returns [of "snap_state A" "snap_state B" "Finite \<tau>"] obtain X where
        "blend_packets (snap_state A) (snap_state B) (Finite \<tau>) = Some X" by blast
      then show ?thesis unfolding val by simp
    qed
    from partial total show ?thesis by blast
  qed
  from order res show "snap_timestamp A \<le> ?rt \<and> ?rt < snap_timestamp B \<and>
     (\<forall>r s'. get_interpolated_state now now' s = Some (r, s') \<longrightarrow>
         (\<exists>X. r = Some X \<and> position_between (snap_state A) X (snap_state B))) \<and>
     (angles_tame (snap_state A) \<and> angles_tame (snap_state B) \<longrightarrow>
        (\<exists>X s'. get_interpolated_state now now' s = Some (Some X, s')))" by blast
qed

lemma two_snapshots_eq:
  "two_snapshots = interpolator_init
     \<lparr>snapshots := [\<lparr>snap_state = moving_at 0 10, snap_timestamp = 0, snap_valid = True\<rparr>,
                    \<lparr>snap_state = moving_at 1 0, snap_timestamp = 1150500000, snap_valid = True\<rparr>,
                    empty_snapshot],
      write_index := 2, snapshot_count := 2\<rparr>"
  by (simp add: two_snapshots_def first_snapshot_eq add_snapshot_def
      interpolator_init_def SNAPSHOT_BUFFER_SIZE_def)

theorem interpolated_position_between_witness:
  "\<exists>X s'. get_interpolated_state (milliseconds 1200) (milliseconds 1200) two_snapshots = Some (Some X, s') \<and>
       position_between (moving_at 0 10) X (moving_at 1 0)"
proof -
  let ?A = "\<lparr>snap_state = moving_at 0 10, snap_timestamp = 0, snap_valid = True\<rparr>"
  let ?B = "\<lparr>snap_state = moving_at 1 0, snap_timestamp = 1150500000, snap_valid = True\<rparr>"
  have h1: "2 \<le> snapshot_count two_snapshots \<and>
     bracket (milliseconds 1200 - milliseconds INTERPOLATION_DELAY_MS) (None, None)
       (take (snapshot_count two_snapshots) (snapshots two_snapshots)) = (Some ?A, Some ?B) \<and>
     \<not> blend_active two_snapshots \<and>
     \<not> (in_extrapolation two_snapshots \<and> extrapolation_anchor two_snapshots \<noteq> None)"
    by (simp add: two_snapshots_eq interpolator_init_def milliseconds_def INTERPOLATION_DELAY_MS_def)
  have h2: "position_reaches (snap_state ?A) (snap_state ?B)"
    by (simp add: position_reaches_def reaches_def moving_at_def zero_state_def is_float_def
        lerp_def f_finite)
  have h3: "angles_tame (snap_state ?A) \<and> angles_tame (snap_state ?B)"
    by (simp add: angles_tame_def tame_def moving_at_def zero_state_def)
  have h4: "in_clock_range (snap_timestamp ?A) \<and> in_clock_range (snap_timestamp ?B)"
    by (simp add: in_clock_range_def)
  note inst = interpolated_position_between
    [of two_snapshots "milliseconds 1200" ?A ?B "milliseconds 1200", rule_format]
  from inst h1 h2 h4 have
    partial: "\<And>r s'. get_interpolated_state (milliseconds 1200) (milliseconds 1200) two_snapshots = Some (r, s') \<Longrightarrow>
         (\<exists>X. r = Some X \<and> position_between (snap_state ?A) X (snap_state ?B))"
    and total: "angles_tame (snap_state ?A) \<and> angles_tame (snap_state ?B) \<Longrightarrow>
        (\<exists>X s'. get_interpolated_state (milliseconds 1200) (milliseconds 1200) two_snapshots = Some (Some X, s'))"
    by blast+
  from total [OF h3] obtain X s' where
    r: "get_interpolated_state (milliseconds 1200) (milliseconds 1200) two_snapshots = Some (Some X, s')"
    by blast
  from partial [OF r] have "position_between (snap_state ?A) X (snap_state ?B)" by simp
  with r show ?thesis by auto
qed


section \<open>Story lock: fail-safe release\<close>

lemma flush_cache:
  "g_fact_manager (flush_pending_facts H srt clk s) =
     apply_pending H srt clk 0 (g_W3mPendingFacts s) (g_fact_manager s)"
  by (simp add: flush_pending_facts_def)

lemma flush_queue: "g_W3mPendingFacts (flush_pending_facts H srt clk s) = []"
  by (simp add: flush_pending_facts_def)

lemma flush_frame:
  "g_story_lock (flush_pending_facts H srt clk s) = g_story_lock s \<and>
   g_W3mGlobalSyncInProgress (flush_pending_facts H srt clk s) = g_W3mGlobalSyncInProgress s \<and>
   g_loopback_enabled (flush_pending_facts H srt clk s) = g_loopback_enabled s \<and>
   wire (flush_pending_facts H srt clk s) = wire s \<and>
   looped (flush_pending_facts H srt clk s) = looped s \<and>
   packets_sent (flush_pending_facts H srt clk s) = packets_sent s"
  by (simp add: flush_pending_facts_def)

lemma release_effect:
  "\<not> is_locked (g_story_lock (release_global_story_lock H srt clk forced s)) \<and>
   \<not> g_W3mGlobalSyncInProgress (release_global_story_lock H srt clk forced s) \<and>
   g_W3mPendingFacts (release_global_story_lock H srt clk forced s) = [] \<and>
   g_fact_manager (release_global_story_lock H srt clk forced s) =
     apply_pending H srt clk 0 (g_W3mPendingFacts s) (g_fact_manager s) \<and>
   (\<not> g_loopback_enabled s \<longrightarrow>
      looped (release_global_story_lock H srt clk forced s) = looped s \<and>
      wire (release_global_story_lock H srt clk forced s) =
        wire s @ [(release_channel forced,
                   QuestLockPacket \<lparr>lp_is_locked = False,
                                    lp_scene_id = m_scene_id (g_story_lock s),
                                    lp_player_guid = m_initiator_guid (g_story_lock s),
                                    lp_timestamp = ucast (clk (length (g_W3mPendingFacts s)))\<rparr>)]) \<and>
   (g_loopback_enabled s \<longrightarrow>
      wire (release_global_story_lock H srt clk forced s) = wire s \<and>
      looped (release_global_story_lock H srt clk forced s) =
        looped s @ [\<lparr>lp_is_locked = False,
                     lp_scene_id = m_scene_id (g_story_lock s),
                     lp_player_guid = m_initiator_guid (g_story_lock s),
                     lp_timestamp = ucast (clk (length (g_W3mPendingFacts s)))\<rparr>])"
  by (simp add: release_global_story_lock_def Let_def flush_cache flush_queue flush_frame
      release_lock_def is_locked_def)

lemma release_in_loopback:
  "g_loopback_enabled s \<Longrightarrow>
   release_global_story_lock H srt clk True s = release_global_story_lock H srt clk False s"
  by (simp add: release_global_story_lock_def Let_def flush_frame)

text \<open>
  The check counts whole milliseconds and fires when the count exceeds 15000: it leaves
  the lock alone until 15001 ms have passed since the acquisition.
\<close>

lemma elapsed_whole_ms:
  fixes now ts :: u64
  assumes "unat ts \<le> unat now"
  shows "unat (elapsed_ms now ts) = (unat now - unat ts) div 1000000"
proof -
  have "ts \<le> now" using assms by (simp add: word_le_nat_alt)
  then have "unat (now - ts) = unat now - unat ts" by (simp add: unat_sub)
  then show ?thesis by (simp add: elapsed_ms_def unat_div)
qed

lemma check_fires:
  assumes "is_locked (g_story_lock s)"
    and "unat (m_lock_timestamp (g_story_lock s)) + 15001000000 \<le> unat (clk 0)"
  shows "check_story_lock_timeout H srt clk s = release_global_story_lock H srt (\<lambda>i. clk (Suc i)) True s"
proof -
  have "unat (m_lock_timestamp (g_story_lock s)) \<le> unat (clk 0)" using assms(2) by simp
  from elapsed_whole_ms [OF this] assms(2)
  have "15000 < unat (elapsed_ms (clk 0) (m_lock_timestamp (g_story_lock s)))" by simp
  then have "STORY_LOCK_TIMEOUT_MS < elapsed_ms (clk 0) (m_lock_timestamp (g_story_lock s))"
    by (simp add: word_less_nat_alt STORY_LOCK_TIMEOUT_MS_def)
  with assms(1) show ?thesis by (simp add: check_story_lock_timeout_def)
qed

lemma check_waits:
  assumes "unat (m_lock_timestamp (g_story_lock s)) \<le> unat (clk 0)"
    and "unat (clk 0) < unat (m_lock_timestamp (g_story_lock s)) + 15001000000"
  shows "check_story_lock_timeout H srt clk s = s"
proof -
  from elapsed_whole_ms [OF assms(1)] assms(2)
  have "unat (elapsed_ms (clk 0) (m_lock_timestamp (g_story_lock s))) \<le> 15000" by simp
  then have "\<not> STORY_LOCK_TIMEOUT_MS < elapsed_ms (clk 0) (m_lock_timestamp (g_story_lock s))"
    by (simp add: word_less_nat_alt STORY_LOCK_TIMEOUT_MS_def)
  then show ?thesis by (simp add: check_story_lock_timeout_def)
qed

lemma heartbeat_loop_idle:
  "\<not> is_locked (g_story_lock s) \<Longrightarrow> heartbeat_loop H srt clks s = s"
  by (induction clks) (simp_all add: broadcast_narrative_heartbeat_def check_story_lock_timeout_def)

lemma heartbeat_loop_releases:
  assumes "is_locked (g_story_lock s)"
    and "unat (m_lock_timestamp (g_story_lock s)) \<le> prev"
    and "prev < unat (m_lock_timestamp (g_story_lock s)) + 15001000000"
    and "on_schedule prev clks" and "clks \<noteq> []"
    and "unat (m_lock_timestamp (g_story_lock s)) + 15001000000 \<le> unat (last clks 0)"
  shows "\<not> is_locked (g_story_lock (heartbeat_loop H srt clks s)) \<and>
     (\<exists>k < length clks.
        is_locked (g_story_lock (heartbeat_loop H srt (take k clks) s)) \<and>
        \<not> is_locked (g_story_lock (heartbeat_loop H srt (take (Suc k) clks) s)) \<and>
        unat ((clks ! k) 0) <
          unat (m_lock_timestamp (g_story_lock s)) + 15001000000 + HEARTBEAT_INTERVAL_MS * 1000000)"
  using assms
proof (induction clks arbitrary: prev)
  case Nil
  then show ?case by simp
next
  case (Cons clk clks)
  let ?ts = "unat (m_lock_timestamp (g_story_lock s))"
  let ?s1 = "check_story_lock_timeout H srt clk s"
  from Cons.prems(4) have sched: "prev \<le> unat (clk 0)"
      "unat (clk 0) \<le> prev + HEARTBEAT_INTERVAL_MS * 1000000" "on_schedule (unat (clk 0)) clks"
    by simp_all
  show ?case
  proof (cases "?ts + 15001000000 \<le> unat (clk 0)")
    case True
    have "?s1 = release_global_story_lock H srt (\<lambda>i. clk (Suc i)) True s"
      using Cons.prems(1) True by (rule check_fires)
    then have free: "\<not> is_locked (g_story_lock ?s1)" by (simp add: release_effect)
    then have rest: "heartbeat_loop H srt clks ?s1 = ?s1" by (rule heartbeat_loop_idle)
    have "unat (clk 0) < ?ts + 15001000000 + HEARTBEAT_INTERVAL_MS * 1000000"
      using sched(2) Cons.prems(3) by linarith
    then have "is_locked (g_story_lock (heartbeat_loop H srt (take 0 (clk # clks)) s)) \<and>
        \<not> is_locked (g_story_lock (heartbeat_loop H srt (take (Suc 0) (clk # clks)) s)) \<and>
        unat (((clk # clks) ! 0) 0) < ?ts + 15001000000 + HEARTBEAT_INTERVAL_MS * 1000000"
      using Cons.prems(1) free by (simp add: broadcast_narrative_heartbeat_def)
    moreover have "\<not> is_locked (g_story_lock (heartbeat_loop H srt (clk # clks) s))"
      using free rest by (simp add: broadcast_narrative_heartbeat_def)
    ultimately show ?thesis by (intro conjI exI [of _ 0]) simp_all
  next
    case False
    then have early: "unat (clk 0) < ?ts + 15001000000" by simp
    have late: "?ts \<le> unat (clk 0)" using Cons.prems(2) sched(1) by linarith
    have same: "?s1 = s" using late early by (rule check_waits)
    have more: "clks \<noteq> []"
    proof
      assume "clks = []"
      with Cons.prems(6) early show False by simp
    qed
    then have last: "?ts + 15001000000 \<le> unat (last clks 0)" using Cons.prems(6) by simp
    from Cons.IH [OF Cons.prems(1) late early sched(3) more last]
    obtain k where k: "\<not> is_locked (g_story_lock (heartbeat_loop H srt clks s))" "k < length clks"
        "is_locked (g_story_lock (heartbeat_loop H srt (take k clks) s))"
        "\<not> is_locked (g_story_lock (heartbeat_loop H srt (take (Suc k) clks) s))"
        "unat ((clks ! k) 0) < ?ts + 15001000000 + HEARTBEAT_INTERVAL_MS * 1000000"
      by blast
    have "Suc k < length (clk # clks) \<and>
        is_locked (g_story_lock (heartbeat_loop H srt (take (Suc k) (clk # clks)) s)) \<and>
        \<not> is_locked (g_story_lock (heartbeat_loop H srt (take (Suc (Suc k)) (clk # clks)) s)) \<and>
        unat (((clk # clks) ! Suc k) 0) < ?ts + 15001000000 + HEARTBEAT_INTERVAL_MS * 1000000"
      using k by (simp add: broadcast_narrative_heartbeat_def same)
    moreover have "\<not> is_locked (g_story_lock (heartbeat_loop H srt (clk # clks) s))"
      using k(1) by (simp add: broadcast_narrative_heartbeat_def same)
    ultimately show ?thesis by blast
  qed
qed

text \<open>
  Two runs on which the sentence fails. In loopback mode
  \<^verbatim>\<open>release_global_story_lock\<close> hands the unlock packet to the local session-state
  listener and sends nothing: after a timed-out lock is released, nothing is on the wire,
  and the forced release leaves exactly the state a cooperative one leaves. And with
  loopback mode off, the lock taken at time 0 and heartbeats every 5000 ms, the first of
  them at 0.5 ms: the check at 15000.5 ms counts 15000 whole milliseconds and leaves the
  lock held, so the lock is held until the next check, at 20000.5 ms, which is later
  than 15 s plus one interval.
\<close>

theorem forced_release_in_loopback_counterexample:
  "is_locked (g_story_lock held_in_loopback) \<and>
   elapsed_ms (sixteen_seconds 0) (m_lock_timestamp (g_story_lock held_in_loopback)) > STORY_LOCK_TIMEOUT_MS \<and>
   \<not> is_locked (g_story_lock (check_story_lock_timeout example_hash (\<lambda>_. example_sort)
         sixteen_seconds held_in_loopback)) \<and>
   wire (check_story_lock_timeout example_hash (\<lambda>_. example_sort) sixteen_seconds held_in_loopback) = [] \<and>
   release_global_story_lock example_hash (\<lambda>_. example_sort) sixteen_seconds True held_in_loopback =
     release_global_story_lock example_hash (\<lambda>_. example_sort) sixteen_seconds False held_in_loopback \<and>
   \<not> g_loopback_enabled held_on_network \<and>
   m_lock_timestamp (g_story_lock held_on_network) = 0 \<and>
   on_schedule 0 every_five_seconds \<and>
   is_locked (g_story_lock (heartbeat_loop example_hash (\<lambda>_. example_sort)
       (take 4 every_five_seconds) held_on_network)) \<and>
   unat ((every_five_seconds ! 4) 0) > (unat STORY_LOCK_TIMEOUT_MS + HEARTBEAT_INTERVAL_MS) * 1000000 \<and>
   \<not> is_locked (g_story_lock (heartbeat_loop example_hash (\<lambda>_. example_sort)
       every_five_seconds held_on_network))"
proof -
  have loopback: "is_locked (g_story_lock held_in_loopback) \<and>
   elapsed_ms (sixteen_seconds 0) (m_lock_timestamp (g_story_lock held_in_loopback)) > STORY_LOCK_TIMEOUT_MS \<and>
   \<not> is_locked (g_story_lock (check_story_lock_timeout example_hash (\<lambda>_. example_sort)
         sixteen_seconds held_in_loopback)) \<and>
   wire (check_story_lock_timeout example_hash (\<lambda>_. example_sort) sixteen_seconds held_in_loopback) = [] \<and>
   release_global_story_lock example_hash (\<lambda>_. example_sort) sixteen_seconds True held_in_loopback =
     release_global_story_lock example_hash (\<lambda>_. example_sort) sixteen_seconds False held_in_loopback"
    by (simp add: held_in_loopback_def acquire_global_story_lock_def quest_sync_init_def
        story_lock_init_def acquire_lock_def is_locked_def elapsed_ms_def sixteen_seconds_def
        STORY_LOCK_TIMEOUT_MS_def check_story_lock_timeout_def release_global_story_lock_def
        release_lock_def flush_pending_facts_def Let_def)
  have start: "is_locked (g_story_lock held_on_network)"
    "m_lock_timestamp (g_story_lock held_on_network) = 0" "\<not> g_loopback_enabled held_on_network"
    by (simp_all add: held_on_network_def acquire_global_story_lock_def quest_sync_init_def
        story_lock_init_def acquire_lock_def is_locked_def)
  have wait: "check_story_lock_timeout example_hash (\<lambda>_. example_sort) (\<lambda>_. t) held_on_network =
      held_on_network" if "unat t < 15001000000" for t :: u64
    by (rule check_waits) (use that in \<open>simp_all add: start\<close>)
  have four: "heartbeat_loop example_hash (\<lambda>_. example_sort) (take 4 every_five_seconds) held_on_network =
      held_on_network"
    by (simp add: every_five_seconds_def broadcast_narrative_heartbeat_def wait)
  have fire: "check_story_lock_timeout example_hash (\<lambda>_. example_sort) (\<lambda>_. 20000500000) held_on_network =
      release_global_story_lock example_hash (\<lambda>_. example_sort) (\<lambda>i. 20000500000) True held_on_network"
    by (rule check_fires) (simp_all add: start)
  have five: "\<not> is_locked (g_story_lock (heartbeat_loop example_hash (\<lambda>_. example_sort)
       every_five_seconds held_on_network))"
    by (simp add: every_five_seconds_def broadcast_narrative_heartbeat_def wait fire release_effect)
  have sched: "on_schedule 0 every_five_seconds"
    by (simp add: every_five_seconds_def HEARTBEAT_INTERVAL_MS_def)
  have late: "unat ((every_five_seconds ! 4) 0) > (unat STORY_LOCK_TIMEOUT_MS + HEARTBEAT_INTERVAL_MS) * 1000000"
    by (simp add: every_five_seconds_def HEARTBEAT_INTERVAL_MS_def STORY_LOCK_TIMEOUT_MS_def)
  from loopback start four five sched late show ?thesis by simp
qed

text \<open>
  C3, as the code has it. When the timeout check finds the lock held and counts more
  than 15000 whole milliseconds since its acquisition, it releases the lock, clears the
  sync flag, applies the queued facts to the registry in order and empties the queue.
  With loopback mode off it sends the unlock packet on the channel
  \<^verbatim>\<open>story_lock_release_forced\<close>, where a cooperative release sends it on \<^verbatim>\<open>quest_lock\<close>;
  with loopback mode on it sends nothing, hands the packet to the local listener, and the
  forced release is the cooperative one. A check that leaves the lock held has counted at
  most 15000 ms. When the heartbeat runs on schedule from the acquisition on, each run at
  most 5000 ms after the one before, and the last run comes 15001 ms or more after the
  acquisition, one of the runs has released the lock, and that run started less than
  15001 ms plus one heartbeat interval after the acquisition.
\<close>

theorem story_lock_fail_safe:
  "(is_locked (g_story_lock s) \<and>
    elapsed_ms (clk 0) (m_lock_timestamp (g_story_lock s)) > STORY_LOCK_TIMEOUT_MS \<longrightarrow>
      \<not> is_locked (g_story_lock (check_story_lock_timeout H srt clk s)) \<and>
      \<not> g_W3mGlobalSyncInProgress (check_story_lock_timeout H srt clk s) \<and>
      g_W3mPendingFacts (check_story_lock_timeout H srt clk s) = [] \<and>
      g_fact_manager (check_story_lock_timeout H srt clk s) =
        apply_pending H srt (\<lambda>i. clk (Suc i)) 0 (g_W3mPendingFacts s) (g_fact_manager s) \<and>
      (\<not> g_loopback_enabled s \<longrightarrow>
         wire (check_story_lock_timeout H srt clk s) =
           wire s @ [(''story_lock_release_forced'',
                      QuestLockPacket \<lparr>lp_is_locked = False,
                                       lp_scene_id = m_scene_id (g_story_lock s),
                                       lp_player_guid = m_initiator_guid (g_story_lock s),
                                       lp_timestamp = ucast (clk (Suc (length (g_W3mPendingFacts s))))\<rparr>)] \<and>
         wire (W3mReleaseStoryLock H srt clk s) =
           wire s @ [(''quest_lock'',
                      QuestLockPacket \<lparr>lp_is_locked = False,
                                       lp_scene_id = m_scene_id (g_story_lock s),
                                       lp_player_guid = m_initiator_guid (g_story_lock s),
                                       lp_timestamp = ucast (clk (length (g_W3mPendingFacts s)))\<rparr>)]) \<and>
      (g_loopback_enabled s \<longrightarrow>
         wire (check_story_lock_timeout H srt clk s) = wire s \<and>
         looped (check_story_lock_timeout H srt clk s) =
           looped s @ [\<lparr>lp_is_locked = False,
                        lp_scene_id = m_scene_id (g_story_lock s),
                        lp_player_guid = m_initiator_guid (g_story_lock s),
                        lp_timestamp = ucast (clk (Suc (length (g_W3mPendingFacts s))))\<rparr>] \<and>
         check_story_lock_timeout H srt clk s = W3mReleaseStoryLock H srt (\<lambda>i. clk (Suc i)) s)) \<and>
   (is_locked (g_story_lock (check_story_lock_timeout H srt clk s)) \<longrightarrow>
      elapsed_ms (clk 0) (m_lock_timestamp (g_story_lock s)) \<le> STORY_LOCK_TIMEOUT_MS) \<and>
   (is_locked (g_story_lock s) \<and> clks \<noteq> [] \<and>
    on_schedule (unat (m_lock_timestamp (g_story_lock s))) clks \<and>
    unat (m_lock_timestamp (g_story_lock s)) + (unat STORY_LOCK_TIMEOUT_MS + 1) * 1000000
      \<le> unat (last clks 0) \<longrightarrow>
      \<not> is_locked (g_story_lock (heartbeat_loop H srt clks s)) \<and>
      (\<exists>k < length clks.
         is_locked (g_story_lock (heartbeat_loop H srt (take k clks) s)) \<and>
         \<not> is_locked (g_story_lock (heartbeat_loop H srt (take (Suc k) clks) s)) \<and>
         unat ((clks ! k) 0) <
           unat (m_lock_timestamp (g_story_lock s)) +
             (unat STORY_LOCK_TIMEOUT_MS + 1 + HEARTBEAT_INTERVAL_MS) * 1000000))"
proof -
  have fired: "is_locked (g_story_lock s) \<and>
    elapsed_ms (clk 0) (m_lock_timestamp (g_story_lock s)) > STORY_LOCK_TIMEOUT_MS \<longrightarrow>
      check_story_lock_timeout H srt clk s = release_global_story_lock H srt (\<lambda>i. clk (Suc i)) True s"
    by (simp add: check_story_lock_timeout_def)
  have held: "is_locked (g_story_lock (check_story_lock_timeout H srt clk s)) \<longrightarrow>
      elapsed_ms (clk 0) (m_lock_timestamp (g_story_lock s)) \<le> STORY_LOCK_TIMEOUT_MS"
    using release_effect [of H srt "\<lambda>i. clk (Suc i)" True s]
    by (auto simp: check_story_lock_timeout_def)
  have same: "g_loopback_enabled s \<longrightarrow>
      release_global_story_lock H srt (\<lambda>i. clk (Suc i)) True s = W3mReleaseStoryLock H srt (\<lambda>i. clk (Suc i)) s"
    unfolding W3mReleaseStoryLock_def by (simp add: release_in_loopback)
  have run: "\<not> is_locked (g_story_lock (heartbeat_loop H srt clks s)) \<and>
      (\<exists>k < length clks.
         is_locked (g_story_lock (heartbeat_loop H srt (take k clks) s)) \<and>
         \<not> is_locked (g_story_lock (heartbeat_loop H srt (take (Suc k) clks) s)) \<and>
         unat ((clks ! k) 0) <
           unat (m_lock_timestamp (g_story_lock s)) +
             (unat STORY_LOCK_TIMEOUT_MS + 1 + HEARTBEAT_INTERVAL_MS) * 1000000)"
    if h: "is_locked (g_story_lock s)" "clks \<noteq> []"
      "on_schedule (unat (m_lock_timestamp (g_story_lock s))) clks"
      "unat (m_lock_timestamp (g_story_lock s)) + (unat STORY_LOCK_TIMEOUT_MS + 1) * 1000000
         \<le> unat (last clks 0)"
  proof -
    have due: "unat (m_lock_timestamp (g_story_lock s)) + 15001000000 \<le> unat (last clks 0)"
      using h(4) by (simp add: STORY_LOCK_TIMEOUT_MS_def)
    have c: "(unat STORY_LOCK_TIMEOUT_MS + 1 + HEARTBEAT_INTERVAL_MS) * 1000000 =
        15001000000 + HEARTBEAT_INTERVAL_MS * 1000000"
      by (simp add: STORY_LOCK_TIMEOUT_MS_def)
    have le: "unat (m_lock_timestamp (g_story_lock s)) \<le> unat (m_lock_timestamp (g_story_lock s))"
      and lt: "unat (m_lock_timestamp (g_story_lock s)) < unat (m_lock_timestamp (g_story_lock s)) + 15001000000"
      by simp_all
    show ?thesis
      unfolding c add.assoc [symmetric]
      by (rule heartbeat_loop_releases [OF h(1) le lt h(3) h(2) due])
  qed
  show ?thesis
    using fired held same run release_effect [of H srt "\<lambda>i. clk (Suc i)" True s]
      release_effect [of H srt clk False s]
    by (simp add: W3mReleaseStoryLock_def release_channel_def)
qed

theorem story_lock_fail_safe_witness:
  "\<not> is_locked (g_story_lock (check_story_lock_timeout example_hash (\<lambda>_. example_sort)
       sixteen_seconds held_on_network)) \<and>
   g_W3mPendingFacts (check_story_lock_timeout example_hash (\<lambda>_. example_sort)
       sixteen_seconds held_on_network) = [] \<and>
   map fst (wire (check_story_lock_timeout example_hash (\<lambda>_. example_sort)
       sixteen_seconds held_on_network)) = [''story_lock_release_forced''] \<and>
   map fst (wire (W3mReleaseStoryLock example_hash (\<lambda>_. example_sort)
       sixteen_seconds held_on_network)) = [''quest_lock''] \<and>
   wire (check_story_lock_timeout example_hash (\<lambda>_. example_sort) sixteen_seconds held_in_loopback) = [] \<and>
   \<not> is_locked (g_story_lock (heartbeat_loop example_hash (\<lambda>_. example_sort)
       every_five_seconds held_on_network))"
proof -
  have h: "is_locked (g_story_lock held_on_network) \<and>
    elapsed_ms (sixteen_seconds 0) (m_lock_timestamp (g_story_lock held_on_network)) > STORY_LOCK_TIMEOUT_MS"
    "\<not> g_loopback_enabled held_on_network" "wire held_on_network = []"
    by (simp_all add: held_on_network_def acquire_global_story_lock_def quest_sync_init_def
        story_lock_init_def acquire_lock_def is_locked_def elapsed_ms_def sixteen_seconds_def
        STORY_LOCK_TIMEOUT_MS_def)
  have l: "is_locked (g_story_lock held_in_loopback) \<and>
    elapsed_ms (sixteen_seconds 0) (m_lock_timestamp (g_story_lock held_in_loopback)) > STORY_LOCK_TIMEOUT_MS"
    "g_loopback_enabled held_in_loopback" "wire held_in_loopback = []"
    by (simp_all add: held_in_loopback_def acquire_global_story_lock_def quest_sync_init_def
        story_lock_init_def acquire_lock_def is_locked_def elapsed_ms_def sixteen_seconds_def
        STORY_LOCK_TIMEOUT_MS_def)
  have r: "is_locked (g_story_lock held_on_network) \<and> every_five_seconds \<noteq> [] \<and>
    on_schedule (unat (m_lock_timestamp (g_story_lock held_on_network))) every_five_seconds \<and>
    unat (m_lock_timestamp (g_story_lock held_on_network)) + (unat STORY_LOCK_TIMEOUT_MS + 1) * 1000000
      \<le> unat (last every_five_seconds 0)"
    by (simp add: held_on_network_def acquire_global_story_lock_def quest_sync_init_def
        story_lock_init_def acquire_lock_def is_locked_def every_five_seconds_def
        HEARTBEAT_INTERVAL_MS_def STORY_LOCK_TIMEOUT_MS_def)
  have a: "\<not> is_locked (g_story_lock (check_story_lock_timeout example_hash (\<lambda>_. example_sort)
       sixteen_seconds held_on_network)) \<and>
     g_W3mPendingFacts (check_story_lock_timeout example_hash (\<lambda>_. example_sort)
       sixteen_seconds held_on_network) = [] \<and>
     map fst (wire (check_story_lock_timeout example_hash (\<lambda>_. example_sort)
       sixteen_seconds held_on_network)) = [''story_lock_release_forced''] \<and>
     map fst (wire (W3mReleaseStoryLock example_hash (\<lambda>_. example_sort)
       sixteen_seconds held_on_network)) = [''quest_lock'']"
    using story_lock_fail_safe [of held_on_network sixteen_seconds example_hash "\<lambda>_. example_sort" "[]"] h
    by simp
  have "wire (check_story_lock_timeout example_hash (\<lambda>_. example_sort) sixteen_seconds held_in_loopback) =
      wire held_in_loopback"
    using story_lock_fail_safe [of held_in_loopback sixteen_seconds example_hash "\<lambda>_. example_sort" "[]"] l(1,2)
    by blast
  then have b: "wire (check_story_lock_timeout example_hash (\<lambda>_. example_sort) sixteen_seconds held_in_loopback) = []"
    by (simp only: l(3))
  have c: "\<not> is_locked (g_story_lock (heartbeat_loop example_hash (\<lambda>_. example_sort)
       every_five_seconds held_on_network))"
    using story_lock_fail_safe [of held_on_network sixteen_seconds example_hash "\<lambda>_. example_sort"
        every_five_seconds] r
    by blast
  from a b c show ?thesis by blast
qed


section \<open>Fact registry: queueing during a sync, and the flush\<close>

text \<open>
  As long as the cache stays within its limit a registration is a plain update of the
  entry under the name's hash, so the flush leaves under each hash the last queued fact
  that has it.
\<close>

lemma atomic_add_all_queues:
  "g_W3mGlobalSyncInProgress s \<Longrightarrow>
   atomic_add_all H std_sort guid rs s =
     s\<lparr>g_W3mPendingFacts := g_W3mPendingFacts s @ map (queued H guid) rs\<rparr>"
proof (induction rs arbitrary: s)
  case Nil
  then show ?case by simp
next
  case (Cons r rs)
  obtain name v now where r: "r = (name, v, now)" by (cases r)
  let ?s1 = "W3mAtomicAddFact H std_sort guid (\<lambda>_. now) name v s"
  have s1: "?s1 = s\<lparr>g_W3mPendingFacts := g_W3mPendingFacts s @ [queued H guid r]\<rparr>"
    using Cons.prems by (simp add: W3mAtomicAddFact_def queue_fact_during_sync_def queued_def r)
  then have "g_W3mGlobalSyncInProgress ?s1" using Cons.prems by simp
  from Cons.IH [OF this] show ?case
    unfolding r atomic_add_all.simps by (simp add: s1 r)
qed

lemma length_update_le: "length (AList.update k v al) \<le> Suc (length al)"
  by (induction al) auto

lemma register_fact_no_prune:
  assumes "length c < FACT_CACHE_SIZE_LIMIT"
  shows "register_fact H std_sort t n v g c =
     AList.update (H n) \<lparr>fact_name = n, fact_value = v, fact_timestamp = t,
                          player_guid = g, fact_hash = H n\<rparr> c"
proof -
  let ?fact = "\<lparr>fact_name = n, fact_value = v, fact_timestamp = t, player_guid = g, fact_hash = H n\<rparr>"
  have "length (AList.update (H n) ?fact c) \<le> Suc (length c)" by (rule length_update_le)
  with assms have "\<not> length (AList.update (H n) ?fact c) > FACT_CACHE_SIZE_LIMIT" by linarith
  then show ?thesis by (simp add: register_fact_def Let_def)
qed

lemma register_fact_lookup:
  "length c < FACT_CACHE_SIZE_LIMIT \<Longrightarrow>
   map_of (register_fact H std_sort t (fact_name f) (fact_value f) (player_guid f) c) h =
     (if h = H (fact_name f) then Some (registered H f t) else map_of c h)"
  by (simp add: register_fact_no_prune update_conv' registered_def)

lemma register_fact_length:
  "length c < FACT_CACHE_SIZE_LIMIT \<Longrightarrow>
   length (register_fact H std_sort t n v g c) \<le> Suc (length c)"
  by (simp add: register_fact_no_prune length_update_le)

lemma apply_pending_frame:
  "length c + length fs \<le> FACT_CACHE_SIZE_LIMIT \<Longrightarrow>
   \<forall>f \<in> set fs. H (fact_name f) \<noteq> h \<Longrightarrow>
   map_of (apply_pending H srt clk i fs c) h = map_of c h"
proof (induction fs arbitrary: c i)
  case Nil
  then show ?case by simp
next
  case (Cons f fs)
  let ?c = "register_fact H (srt i) (clk i) (fact_name f) (fact_value f) (player_guid f) c"
  have small: "length c < FACT_CACHE_SIZE_LIMIT" using Cons.prems(1) by simp
  have "length ?c + length fs \<le> FACT_CACHE_SIZE_LIMIT"
    using register_fact_length [OF small, of H "srt i" "clk i" "fact_name f" "fact_value f" "player_guid f"]
      Cons.prems(1) by simp
  moreover have "\<forall>f \<in> set fs. H (fact_name f) \<noteq> h" using Cons.prems(2) by simp
  ultimately have "map_of (apply_pending H srt clk (Suc i) fs ?c) h = map_of ?c h"
    by (rule Cons.IH)
  also have "\<dots> = map_of c h"
    using Cons.prems(2) by (auto simp: register_fact_lookup [OF small])
  finally show ?case by simp
qed

lemma apply_pending_last_wins:
  "length c + length fs \<le> FACT_CACHE_SIZE_LIMIT \<Longrightarrow> k < length fs \<Longrightarrow>
   \<forall>j. k < j \<and> j < length fs \<longrightarrow> H (fact_name (fs ! j)) \<noteq> H (fact_name (fs ! k)) \<Longrightarrow>
   map_of (apply_pending H srt clk i fs c) (H (fact_name (fs ! k))) =
     Some (registered H (fs ! k) (clk (i + k)))"
proof (induction fs arbitrary: c i k)
  case Nil
  then show ?case by simp
next
  case (Cons f fs)
  let ?c = "register_fact H (srt i) (clk i) (fact_name f) (fact_value f) (player_guid f) c"
  have small: "length c < FACT_CACHE_SIZE_LIMIT" using Cons.prems(1) by simp
  have room: "length ?c + length fs \<le> FACT_CACHE_SIZE_LIMIT"
    using register_fact_length [OF small, of H "srt i" "clk i" "fact_name f" "fact_value f" "player_guid f"]
      Cons.prems(1) by simp
  show ?case
  proof (cases k)
    case 0
    have "\<forall>g \<in> set fs. H (fact_name g) \<noteq> H (fact_name f)"
    proof
      fix g assume "g \<in> set fs"
      then obtain j where "j < length fs" "fs ! j = g" by (auto simp: in_set_conv_nth)
      then show "H (fact_name g) \<noteq> H (fact_name f)"
        using Cons.prems(3) [rule_format, of "Suc j"] 0 by simp
    qed
    with room have "map_of (apply_pending H srt clk (Suc i) fs ?c) (H (fact_name f)) =
        map_of ?c (H (fact_name f))"
      by (rule apply_pending_frame)
    then show ?thesis using 0 by (simp add: register_fact_lookup [OF small])
  next
    case (Suc k')
    have "k' < length fs" using Cons.prems(2) Suc by simp
    moreover have "\<forall>j. k' < j \<and> j < length fs \<longrightarrow>
        H (fact_name (fs ! j)) \<noteq> H (fact_name (fs ! k'))"
      using Cons.prems(3) Suc by (metis Suc_less_eq length_Cons nth_Cons_Suc)
    ultimately have "map_of (apply_pending H srt clk (Suc i) fs ?c) (H (fact_name (fs ! k'))) =
        Some (registered H (fs ! k') (clk (Suc i + k')))"
      using room by (intro Cons.IH)
    then show ?thesis using Suc by simp
  qed
qed

lemma apply_pending_present:
  "length c + length fs \<le> FACT_CACHE_SIZE_LIMIT \<Longrightarrow>
   map_of c h \<noteq> None \<or> (\<exists>f \<in> set fs. H (fact_name f) = h) \<Longrightarrow>
   map_of (apply_pending H srt clk i fs c) h \<noteq> None"
proof (induction fs arbitrary: c i)
  case Nil
  then show ?case by simp
next
  case (Cons f fs)
  let ?c = "register_fact H (srt i) (clk i) (fact_name f) (fact_value f) (player_guid f) c"
  have small: "length c < FACT_CACHE_SIZE_LIMIT" using Cons.prems(1) by simp
  have room: "length ?c + length fs \<le> FACT_CACHE_SIZE_LIMIT"
    using register_fact_length [OF small, of H "srt i" "clk i" "fact_name f" "fact_value f" "player_guid f"]
      Cons.prems(1) by simp
  have "map_of ?c h \<noteq> None \<or> (\<exists>f \<in> set fs. H (fact_name f) = h)"
    using Cons.prems(2) by (auto simp: register_fact_lookup [OF small])
  with room have "map_of (apply_pending H srt clk (Suc i) fs ?c) h \<noteq> None"
    by (rule Cons.IH)
  then show ?case by simp
qed


text \<open>
  The loop of the flush and the queue applied in order, each entry once, are the same
  thing, whatever the sizes.
\<close>

lemma apply_pending_foldl:
  "apply_pending H srt clk i fs c =
     foldl (\<lambda>c k. register_fact H (srt (i + k)) (clk (i + k)) (fact_name (fs ! k))
                     (fact_value (fs ! k)) (player_guid (fs ! k)) c)
       c [0..<length fs]"
proof (induction fs arbitrary: i c)
  case Nil
  then show ?case by simp
next
  case (Cons f fs)
  have split: "[0..<length (f # fs)] = 0 # map Suc [0..<length fs]"
    by (simp only: length_Cons upt_conv_Cons [OF zero_less_Suc] map_Suc_upt)
  show ?case
    unfolding split by (simp add: Cons.IH foldl_map)
qed

lemma apply_pending_in_order:
  "apply_pending H srt clk 0 fs c = applied_in_order H srt clk fs c"
  by (simp add: apply_pending_foldl applied_in_order_def)

text \<open>
  Past the limit the registry prunes. 1025 different facts are queued during one sync
  and flushed into the empty cache, with a clock that advances at every reading: the
  1025th registration makes the cache larger than \<^verbatim>\<open>FACT_CACHE_SIZE_LIMIT\<close>, and
  \<^verbatim>\<open>prune_oldest_facts\<close> erases the 257 oldest entries, which are the first 257 facts of
  this very flush. The first queued fact is not in the cache once the flush is over.
\<close>

lemma key_entry: "fst (entry i) = of_nat (Suc i)"
  by (simp add: entry_def example_hash_def name_of_def)

lemma key_inj:
  assumes "i < 2000" "j < 2000" "fst (entry i) = fst (entry j)"
  shows "i = j"
proof -
  have eq: "(of_nat (Suc i) :: u32) = of_nat (Suc j)"
    using assms(3) unfolding key_entry .
  have "take_bit 32 (Suc i) = Suc i" "take_bit 32 (Suc j) = Suc j"
    using assms(1,2) by (simp_all add: take_bit_nat_eq_self)
  with eq show ?thesis
    by (simp add: word_of_nat_eq_iff del: of_nat_Suc)
qed

lemma key_fresh:
  assumes "i < 2000" "n \<le> 2000" "i < m \<or> n \<le> i"
  shows "fst (entry i) \<notin> fst ` set (map entry [m..<n])"
proof
  assume "fst (entry i) \<in> fst ` set (map entry [m..<n])"
  then obtain j where j: "m \<le> j" "j < n" "fst (entry i) = fst (entry j)" by auto
  then have "i = j" using key_inj [of i j] assms(1,2) by simp
  with j assms(3) show False by simp
qed

lemma keys_distinct: "n \<le> 2000 \<Longrightarrow> distinct (map fst (map entry [m..<n]))"
proof -
  assume n: "n \<le> 2000"
  have "inj_on (fst \<circ> entry) (set [m..<n])"
  proof (rule inj_onI)
    fix x y assume "x \<in> set [m..<n]" "y \<in> set [m..<n]" "(fst \<circ> entry) x = (fst \<circ> entry) y"
    then show "x = y" using key_inj [of x y] n by simp
  qed
  then show ?thesis by (simp add: distinct_map)
qed

lemma update_append: "k \<notin> fst ` set al \<Longrightarrow> AList.update k v al = al @ [(k, v)]"
  by (induction al) auto

lemma register_next:
  assumes "i < FACT_CACHE_SIZE_LIMIT"
  shows "register_fact example_hash example_sort (tick i) (name_of i) 1 7 (map entry [0..<i]) =
           map entry [0..<Suc i]"
proof -
  have lim: "i < 2000" using assms by (simp add: FACT_CACHE_SIZE_LIMIT_def)
  have "fst (entry i) \<notin> fst ` set (map entry [0..<i])"
    by (rule key_fresh) (use lim in simp_all)
  then have "AList.update (fst (entry i)) (snd (entry i)) (map entry [0..<i]) =
      map entry [0..<i] @ [entry i]"
    by (simp add: update_append)
  moreover have "length (map entry [0..<i]) < FACT_CACHE_SIZE_LIMIT" using assms by simp
  ultimately show ?thesis
    by (simp add: register_fact_no_prune entry_def)
qed

lemma fill:
  "i + m \<le> FACT_CACHE_SIZE_LIMIT \<Longrightarrow>
   apply_pending example_hash (\<lambda>_. example_sort) tick i (map (queued example_hash 7) (map (\<lambda>i. (name_of i, 1, 0)) [i..<i + m]))
     (map entry [0..<i]) =
   map entry [0..<i + m]"
proof (induction m arbitrary: i)
  case 0
  then show ?case by simp
next
  case (Suc m)
  have i: "i < FACT_CACHE_SIZE_LIMIT" using Suc.prems by simp
  have split: "[i..<i + Suc m] = i # [Suc i..<Suc i + m]"
    by (simp add: upt_conv_Cons)
  have "Suc i + m \<le> FACT_CACHE_SIZE_LIMIT" using Suc.prems by simp
  from Suc.IH [OF this] show ?case
    unfolding split by (simp add: queued_def register_next [OF i])
qed

lemma erase_prefix:
  "distinct (map fst c) \<Longrightarrow> erase_all (map fst (take k c)) c = drop k c"
proof (induction c arbitrary: k)
  case Nil
  then show ?case by simp
next
  case (Cons x xs)
  show ?case
  proof (cases k)
    case 0
    then show ?thesis by simp
  next
    case (Suc k')
    have "fst x \<notin> fst ` set xs" using Cons.prems by simp
    then have "AList.delete (fst x) (x # xs) = xs" by simp
    then show ?thesis using Suc Cons.IH [of k'] Cons.prems by simp
  qed
qed

lemma filter_same_key:
  "distinct (map f xs) \<Longrightarrow> k \<in> set xs \<Longrightarrow> filter (\<lambda>x. f k = f x) xs = [k]"
proof (induction xs)
  case Nil
  then show ?case by simp
next
  case (Cons x xs)
  show ?case
  proof (cases "k = x")
    case True
    have "\<forall>y \<in> set xs. f x \<noteq> f y" using Cons.prems(1) by auto
    then have "filter (\<lambda>y. f x = f y) xs = []" by (simp add: filter_empty_conv)
    then show ?thesis using True by simp
  next
    case False
    then have k: "k \<in> set xs" using Cons.prems(2) by simp
    then have "f k \<in> f ` set xs" by (rule imageI)
    moreover have "f x \<notin> f ` set xs" using Cons.prems(1) by simp
    ultimately have "f k \<noteq> f x" by metis
    then show ?thesis using Cons.IH k Cons.prems(1) by simp
  qed
qed

lemma sort_of_distinct_ages:
  assumes legal: "sorts_by_age std_sort" and d: "distinct (map snd xs)" and s: "sorted (map snd xs)"
  shows "std_sort xs = xs"
proof -
  from legal have srt: "sorted (map snd (std_sort xs))" and perm: "mset (std_sort xs) = mset xs"
    by (simp_all add: sorts_by_age_def)
  have m: "mset (map snd (std_sort xs)) = mset (map snd xs)" unfolding mset_map perm ..
  have d': "distinct (map snd (std_sort xs))" using mset_eq_imp_distinct_iff [OF m] d by blast
  have same: "set (std_sort xs) = set xs" using perm by (rule mset_eq_setD)
  have "sort_key snd xs = std_sort xs"
  proof (rule properties_for_sort_key [OF perm _ srt])
    fix k assume k: "k \<in> set (std_sort xs)"
    then have "filter (\<lambda>x. snd k = snd x) (std_sort xs) = [k]" using d' by (intro filter_same_key)
    moreover have "filter (\<lambda>x. snd k = snd x) xs = [k]" using d k same by (intro filter_same_key) simp_all
    ultimately show "filter (\<lambda>x. snd k = snd x) (std_sort xs) = filter (\<lambda>x. snd k = snd x) xs" by simp
  qed
  moreover have "sort_key snd xs = xs" using s by (rule sort_key_id_if_sorted)
  ultimately show ?thesis by simp
qed

lemma example_sort_legal: "sorts_by_age example_sort"
  by (simp add: sorts_by_age_def example_sort_def)

lemma prune_sorted:
  assumes "sorts_by_age std_sort" "distinct (map fst c)"
    "sorted (map (fact_timestamp \<circ> snd) c)" "distinct (map (fact_timestamp \<circ> snd) c)"
    "prune_target < length c"
  shows "prune_oldest_facts std_sort c = drop (length c - prune_target) c"
proof -
  let ?ages = "map (\<lambda>(h, f). (h, fact_timestamp f)) c"
  have "map snd ?ages = map (fact_timestamp \<circ> snd) c" by (simp add: case_prod_unfold comp_def)
  with assms(3,4) have "sorted (map snd ?ages)" "distinct (map snd ?ages)" by (simp_all only:)
  with assms(1) have srt: "std_sort ?ages = ?ages" by (intro sort_of_distinct_ages)
  have keys: "map fst (take (length c - prune_target) ?ages) = map fst (take (length c - prune_target) c)"
    by (simp add: take_map case_prod_unfold comp_def)
  have "prune_oldest_facts std_sort c = erase_all (map fst (take (length c - prune_target) ?ages)) c"
    using assms(5) unfolding prune_oldest_facts_def Let_def srt by simp
  also have "\<dots> = drop (length c - prune_target) c"
    unfolding keys by (rule erase_prefix [OF assms(2)])
  finally show ?thesis .
qed

lemma ticks_distinct: "n \<le> 2000 \<Longrightarrow> distinct (map (fact_timestamp \<circ> snd \<circ> entry) [0..<n])"
proof -
  assume n: "n \<le> 2000"
  have "inj_on (fact_timestamp \<circ> snd \<circ> entry) (set [0..<n])"
  proof (rule inj_onI)
    fix x y assume xy: "x \<in> set [0..<n]" "y \<in> set [0..<n]"
      "(fact_timestamp \<circ> snd \<circ> entry) x = (fact_timestamp \<circ> snd \<circ> entry) y"
    then have eq: "(of_nat x :: u64) = of_nat y" by (simp add: entry_def tick_def)
    have "take_bit 64 x = x" "take_bit 64 y = y"
      using xy(1,2) n by (simp_all add: take_bit_nat_eq_self)
    with eq show "x = y" by (simp add: word_of_nat_eq_iff)
  qed
  then show ?thesis by (simp add: distinct_map)
qed

lemma ticks_sorted: "n \<le> 2000 \<Longrightarrow> sorted (map (fact_timestamp \<circ> snd \<circ> entry) [0..<n])"
proof -
  assume n: "n \<le> 2000"
  have "sorted_wrt (\<lambda>x y. (of_nat x :: u64) \<le> of_nat y) [0..<n]"
  proof (rule sorted_wrt_mono_rel [of _ "(\<le>)"])
    fix x y assume "x \<in> set [0..<n]" "y \<in> set [0..<n]" "x \<le> y"
    then have "x < 2 ^ 64" "y < 2 ^ 64" "x \<le> y" using n by auto
    then show "(of_nat x :: u64) \<le> of_nat y"
      by (simp add: of_nat_word_less_eq_iff take_bit_nat_eq_self)
  next
    show "sorted_wrt (\<le>) [0..<n]" by simp
  qed
  then show ?thesis
    by (simp add: sorted_map entry_def tick_def comp_def)
qed

lemma overflow:
  assumes n: "n = FACT_CACHE_SIZE_LIMIT"
  shows "register_fact example_hash example_sort (tick n) (name_of n) 1 7 (map entry [0..<n]) =
     map entry [Suc n - prune_target..<Suc n]"
proof -
  let ?c = "map entry [0..<Suc n]"
  have small: "n < 2000" "Suc n \<le> 2000" unfolding n by (simp_all add: FACT_CACHE_SIZE_LIMIT_def)
  have fresh: "fst (entry n) \<notin> fst ` set (map entry [0..<n])"
    by (rule key_fresh) (use small in simp_all)
  have upd: "AList.update (example_hash (name_of n))
       \<lparr>fact_name = name_of n, fact_value = 1, fact_timestamp = tick n, player_guid = 7,
         fact_hash = example_hash (name_of n)\<rparr> (map entry [0..<n]) = ?c"
    using update_append [OF fresh, of "snd (entry n)"] by (simp add: entry_def)
  have d: "distinct (map fst ?c)" by (rule keys_distinct) (rule small)
  have srt: "sorted (map (fact_timestamp \<circ> snd) ?c)"
    using ticks_sorted [OF small(2)] by (simp only: map_map)
  have big: "prune_target < length ?c"
    unfolding n by (simp add: prune_target_def FACT_CACHE_SIZE_LIMIT_def)
  have dt: "distinct (map (fact_timestamp \<circ> snd) ?c)"
    using ticks_distinct [OF small(2)] by (simp only: map_map)
  have "prune_oldest_facts example_sort ?c = drop (length ?c - prune_target) ?c"
    by (rule prune_sorted [OF example_sort_legal d srt dt big])
  also have "\<dots> = map entry [Suc n - prune_target..<Suc n]"
    by (simp add: drop_map)
  finally have pr: "prune_oldest_facts example_sort ?c = map entry [Suc n - prune_target..<Suc n]" .
  have over: "FACT_CACHE_SIZE_LIMIT < length ?c" unfolding n by simp
  show ?thesis
    unfolding register_fact_def Let_def upd using over pr by (simp only: if_True)
qed

lemma apply_pending_append:
  "apply_pending H srt clk i (xs @ ys) c =
     apply_pending H srt clk (i + length xs) ys (apply_pending H srt clk i xs c)"
  by (induction xs arbitrary: i c) simp_all

lemma flooded_over_limit:
  "flooded (Suc FACT_CACHE_SIZE_LIMIT) =
     map entry [Suc FACT_CACHE_SIZE_LIMIT - prune_target..<Suc FACT_CACHE_SIZE_LIMIT]"
proof -
  let ?n = FACT_CACHE_SIZE_LIMIT
  let ?req = "\<lambda>i. (name_of i, 1 :: i32, 0 :: u64)"
  have sync: "g_W3mGlobalSyncInProgress held_on_network"
    "g_W3mPendingFacts held_on_network = []" "g_fact_manager held_on_network = []"
    by (simp_all add: held_on_network_def acquire_global_story_lock_def quest_sync_init_def)
  have q: "g_W3mPendingFacts (atomic_add_all example_hash example_sort 7 (flood (Suc ?n)) held_on_network) =
      map (queued example_hash 7) (flood (Suc ?n))"
    and c: "g_fact_manager (atomic_add_all example_hash example_sort 7 (flood (Suc ?n)) held_on_network) = []"
    by (simp_all add: atomic_add_all_queues [OF sync(1)] sync)
  have split: "flood (Suc ?n) = map ?req [0..<0 + ?n] @ [?req ?n]"
    by (simp add: flood_def)
  have first: "apply_pending example_hash (\<lambda>_. example_sort) tick 0
      (map (queued example_hash 7) (map ?req [0..<0 + ?n])) (map entry [0..<0]) =
      map entry [0..<0 + ?n]"
    by (rule fill) simp
  have "flooded (Suc ?n) =
      apply_pending example_hash (\<lambda>_. example_sort) tick 0 (map (queued example_hash 7) (flood (Suc ?n))) []"
    by (simp only: flooded_def flush_cache q c)
  also have "\<dots> = register_fact example_hash example_sort (tick ?n) (name_of ?n) 1 7 (map entry [0..<?n])"
    unfolding split map_append apply_pending_append using first by (simp add: queued_def)
  finally show ?thesis by (simp only: overflow [OF refl])
qed

lemma flood_nth: "i < n \<Longrightarrow> flood n ! i = (name_of i, 1, 0)"
  by (simp add: flood_def)

lemma flood_length: "length (flood n) = n"
  by (simp add: flood_def)

theorem flushed_fact_pruned_counterexample:
  "g_W3mGlobalSyncInProgress held_on_network \<and>
   length (flood 1025) = 1025 \<and>
   flood 1025 ! 0 = (name_of 0, 1, 0) \<and>
   g_W3mPendingFacts (flush_pending_facts example_hash (\<lambda>_. example_sort) tick
       (atomic_add_all example_hash example_sort 7 (flood 1025) held_on_network)) = [] \<and>
   \<not> has_fact example_hash (flooded 1025) (name_of 0)"
proof -
  have n: "(1025 :: nat) = Suc FACT_CACHE_SIZE_LIMIT" by (simp add: FACT_CACHE_SIZE_LIMIT_def)
  have lo: "0 < Suc FACT_CACHE_SIZE_LIMIT - prune_target"
    by (simp add: FACT_CACHE_SIZE_LIMIT_def prune_target_def)
  have sync: "g_W3mGlobalSyncInProgress held_on_network"
    by (simp add: held_on_network_def acquire_global_story_lock_def)
  have "fst (entry 0) \<notin> fst ` set (map entry [Suc FACT_CACHE_SIZE_LIMIT - prune_target..<Suc FACT_CACHE_SIZE_LIMIT])"
    by (rule key_fresh) (use lo in \<open>simp_all add: FACT_CACHE_SIZE_LIMIT_def\<close>)
  then have "map_of (flooded (Suc FACT_CACHE_SIZE_LIMIT)) (example_hash (name_of 0)) = None"
    unfolding flooded_over_limit by (simp add: map_of_eq_None_iff entry_def)
  then have gone: "\<not> has_fact example_hash (flooded 1025) (name_of 0)"
    unfolding n by (simp add: has_fact_def get_fact_def)
  have first: "flood 1025 ! 0 = (name_of 0, 1, 0)" by (rule flood_nth) simp
  have len: "length (flood 1025) = 1025" by (rule flood_length)
  have empty: "g_W3mPendingFacts (flush_pending_facts example_hash (\<lambda>_. example_sort) tick
       (atomic_add_all example_hash example_sort 7 (flood 1025) held_on_network)) = []"
    by (rule flush_queue)
  from sync len first empty gone show ?thesis by blast
qed


text \<open>
  C1, as the code has it. During a global sync, any sequence of atomic adds leaves the
  fact cache as it was, so \<open>get_fact\<close> returns for every name what it returned before,
  and appends one entry per call to the pending queue, in call order. The flush, for a
  queue of any length, registers every queued entry exactly once, front to back, the
  entry at position \<open>k\<close> with the \<open>k\<close>-th clock reading of the flush, and then empties
  the queue. When the cache and the queue together hold at most 1024 entries (no pruning
  happens during the flush), the entry at position \<open>k\<close> is what \<open>get_fact\<close> returns
  for its name afterwards unless a later entry has the same name hash, and every queued
  name is visible.
\<close>

theorem fact_queue_flush:
  "g_W3mGlobalSyncInProgress s \<longrightarrow>
     g_fact_manager (atomic_add_all H std_sort guid rs s) = g_fact_manager s \<and>
     (\<forall>name. get_fact H (g_fact_manager (atomic_add_all H std_sort guid rs s)) name =
             get_fact H (g_fact_manager s) name) \<and>
     g_W3mPendingFacts (atomic_add_all H std_sort guid rs s) =
       g_W3mPendingFacts s @ map (queued H guid) rs \<and>
     g_fact_manager (flush_pending_facts H srt clk (atomic_add_all H std_sort guid rs s)) =
       applied_in_order H srt clk (g_W3mPendingFacts s @ map (queued H guid) rs) (g_fact_manager s) \<and>
     g_W3mPendingFacts (flush_pending_facts H srt clk (atomic_add_all H std_sort guid rs s)) = [] \<and>
     (length (g_fact_manager s) + length (g_W3mPendingFacts s) + length rs \<le> FACT_CACHE_SIZE_LIMIT \<longrightarrow>
        (\<forall>k < length (g_W3mPendingFacts (atomic_add_all H std_sort guid rs s)).
           (\<forall>j. k < j \<and> j < length (g_W3mPendingFacts (atomic_add_all H std_sort guid rs s)) \<longrightarrow>
                H (fact_name (g_W3mPendingFacts (atomic_add_all H std_sort guid rs s) ! j)) \<noteq>
                H (fact_name (g_W3mPendingFacts (atomic_add_all H std_sort guid rs s) ! k))) \<longrightarrow>
           get_fact H (g_fact_manager (flush_pending_facts H srt clk (atomic_add_all H std_sort guid rs s)))
               (fact_name (g_W3mPendingFacts (atomic_add_all H std_sort guid rs s) ! k)) =
             Some (registered H (g_W3mPendingFacts (atomic_add_all H std_sort guid rs s) ! k) (clk k))) \<and>
        (\<forall>f \<in> set (g_W3mPendingFacts (atomic_add_all H std_sort guid rs s)).
           has_fact H (g_fact_manager (flush_pending_facts H srt clk (atomic_add_all H std_sort guid rs s)))
             (fact_name f)))"
proof
  assume sync: "g_W3mGlobalSyncInProgress s"
  let ?s1 = "atomic_add_all H std_sort guid rs s"
  let ?Q = "g_W3mPendingFacts ?s1"
  let ?C = "g_fact_manager (flush_pending_facts H srt clk ?s1)"
  have s1: "?s1 = s\<lparr>g_W3mPendingFacts := g_W3mPendingFacts s @ map (queued H guid) rs\<rparr>"
    by (rule atomic_add_all_queues [OF sync])
  have cache: "g_fact_manager ?s1 = g_fact_manager s" by (simp add: s1)
  have queue: "?Q = g_W3mPendingFacts s @ map (queued H guid) rs" by (simp add: s1)
  have C: "?C = apply_pending H srt clk 0 ?Q (g_fact_manager s)"
    by (simp only: flush_cache cache)
  have once: "?C = applied_in_order H srt clk (g_W3mPendingFacts s @ map (queued H guid) rs) (g_fact_manager s)"
    unfolding C queue by (rule apply_pending_in_order)
  have vis: "length (g_fact_manager s) + length (g_W3mPendingFacts s) + length rs \<le> FACT_CACHE_SIZE_LIMIT \<longrightarrow>
        (\<forall>k < length ?Q.
           (\<forall>j. k < j \<and> j < length ?Q \<longrightarrow> H (fact_name (?Q ! j)) \<noteq> H (fact_name (?Q ! k))) \<longrightarrow>
           get_fact H ?C (fact_name (?Q ! k)) = Some (registered H (?Q ! k) (clk k))) \<and>
        (\<forall>f \<in> set ?Q. has_fact H ?C (fact_name f))"
  proof
    assume "length (g_fact_manager s) + length (g_W3mPendingFacts s) + length rs \<le> FACT_CACHE_SIZE_LIMIT"
    then have room: "length (g_fact_manager s) + length ?Q \<le> FACT_CACHE_SIZE_LIMIT"
      by (simp add: queue)
    have last: "\<forall>k < length ?Q.
           (\<forall>j. k < j \<and> j < length ?Q \<longrightarrow> H (fact_name (?Q ! j)) \<noteq> H (fact_name (?Q ! k))) \<longrightarrow>
           get_fact H ?C (fact_name (?Q ! k)) = Some (registered H (?Q ! k) (clk k))"
      unfolding C get_fact_def
      using apply_pending_last_wins [OF room, of _ H srt clk 0] by simp
    have all: "\<forall>f \<in> set ?Q. has_fact H ?C (fact_name f)"
      unfolding C has_fact_def get_fact_def
      using apply_pending_present [OF room, of _ H srt clk 0] by blast
    from last all show "(\<forall>k < length ?Q.
           (\<forall>j. k < j \<and> j < length ?Q \<longrightarrow> H (fact_name (?Q ! j)) \<noteq> H (fact_name (?Q ! k))) \<longrightarrow>
           get_fact H ?C (fact_name (?Q ! k)) = Some (registered H (?Q ! k) (clk k))) \<and>
        (\<forall>f \<in> set ?Q. has_fact H ?C (fact_name f))" by blast
  qed
  from cache queue once vis flush_queue [of H srt clk ?s1]
  show "g_fact_manager ?s1 = g_fact_manager s \<and>
     (\<forall>name. get_fact H (g_fact_manager ?s1) name = get_fact H (g_fact_manager s) name) \<and>
     ?Q = g_W3mPendingFacts s @ map (queued H guid) rs \<and>
     ?C = applied_in_order H srt clk (g_W3mPendingFacts s @ map (queued H guid) rs) (g_fact_manager s) \<and>
     g_W3mPendingFacts (flush_pending_facts H srt clk ?s1) = [] \<and>
     (length (g_fact_manager s) + length (g_W3mPendingFacts s) + length rs \<le> FACT_CACHE_SIZE_LIMIT \<longrightarrow>
        (\<forall>k < length ?Q.
           (\<forall>j. k < j \<and> j < length ?Q \<longrightarrow> H (fact_name (?Q ! j)) \<noteq> H (fact_name (?Q ! k))) \<longrightarrow>
           get_fact H ?C (fact_name (?Q ! k)) = Some (registered H (?Q ! k) (clk k))) \<and>
        (\<forall>f \<in> set ?Q. has_fact H ?C (fact_name f)))"
    by simp
qed

theorem fact_queue_flush_witness:
  "\<not> has_fact example_hash (g_fact_manager (atomic_add_all example_hash example_sort 7 three_adds held_on_network)) ''a'' \<and>
   map fact_name (g_W3mPendingFacts (atomic_add_all example_hash example_sort 7 three_adds held_on_network)) =
     [''a'', ''bb'', ''a''] \<and>
   g_W3mPendingFacts (flush_pending_facts example_hash (\<lambda>_. example_sort) tick
      (atomic_add_all example_hash example_sort 7 three_adds held_on_network)) = [] \<and>
   map_option fact_value (get_fact example_hash (g_fact_manager (flush_pending_facts example_hash (\<lambda>_. example_sort) tick
      (atomic_add_all example_hash example_sort 7 three_adds held_on_network))) ''a'') = Some 3 \<and>
   map_option fact_value (get_fact example_hash (g_fact_manager (flush_pending_facts example_hash (\<lambda>_. example_sort) tick
      (atomic_add_all example_hash example_sort 7 three_adds held_on_network))) ''bb'') = Some 2"
proof -
  let ?s1 = "atomic_add_all example_hash example_sort 7 three_adds held_on_network"
  let ?C = "g_fact_manager (flush_pending_facts example_hash (\<lambda>_. example_sort) tick ?s1)"
  let ?Q = "[queued example_hash 7 (''a'', 1, 10), queued example_hash 7 (''bb'', 2, 20),
             queued example_hash 7 (''a'', 3, 30)]"
  have start: "g_W3mGlobalSyncInProgress held_on_network"
    "g_W3mPendingFacts held_on_network = []" "g_fact_manager held_on_network = []"
    by (simp_all add: held_on_network_def acquire_global_story_lock_def quest_sync_init_def)
  note inst = fact_queue_flush [where s = held_on_network and H = example_hash
      and std_sort = example_sort and guid = 7 and rs = three_adds
      and srt = "\<lambda>_. example_sort" and clk = tick, rule_format, OF start(1)]
  have cache: "g_fact_manager ?s1 = []" using inst start(3) by simp
  have queue: "g_W3mPendingFacts ?s1 = ?Q" using inst start(2) by (simp add: three_adds_def)
  have flushed: "g_W3mPendingFacts (flush_pending_facts example_hash (\<lambda>_. example_sort) tick ?s1) = []"
    using inst by simp
  have room: "length (g_fact_manager held_on_network) + length (g_W3mPendingFacts held_on_network) +
      length three_adds \<le> FACT_CACHE_SIZE_LIMIT"
    by (simp add: start three_adds_def FACT_CACHE_SIZE_LIMIT_def)
  have last: "\<And>k. k < length (g_W3mPendingFacts ?s1) \<Longrightarrow>
      (\<forall>j. k < j \<and> j < length (g_W3mPendingFacts ?s1) \<longrightarrow>
           example_hash (fact_name (g_W3mPendingFacts ?s1 ! j)) \<noteq>
           example_hash (fact_name (g_W3mPendingFacts ?s1 ! k))) \<Longrightarrow>
      get_fact example_hash ?C (fact_name (g_W3mPendingFacts ?s1 ! k)) =
        Some (registered example_hash (g_W3mPendingFacts ?s1 ! k) (tick k))"
    using inst room by blast
  have top: "\<not> (\<exists>j::nat. 2 < j \<and> j < Suc (Suc (Suc 0)))" by arith
  have mid: "(1 < j \<and> j < Suc (Suc (Suc 0))) = (j = 2)" for j :: nat by arith
  have a: "get_fact example_hash ?C ''a'' = Some (registered example_hash (?Q ! 2) (tick 2))"
    using last [of 2] top unfolding queue by (simp add: queued_def)
  have b: "get_fact example_hash ?C ''bb'' = Some (registered example_hash (?Q ! 1) (tick 1))"
    using last [of 1] unfolding queue
    by (simp add: queued_def example_hash_def mid)
  have before: "\<not> has_fact example_hash (g_fact_manager ?s1) ''a''"
    by (simp add: cache has_fact_def get_fact_def)
  from before queue flushed a b show ?thesis
    by (simp add: registered_def queued_def)
qed


end
